theory Spec2Isabelle
  imports Main
begin

section \<open>JavaScript values and the object heap\<close>

text \<open>
  The comparator \<^verbatim>\<open>deepEqual\<close> (deep-equal.ts) inspects arbitrary JavaScript values.
  A value is a primitive or a reference to a heap object; object identity is the address.
  Numbers are kept abstract: only \<^verbatim>\<open>Object.is\<close> and \<^verbatim>\<open>===\<close> are applied to them, so a
  number is \<^verbatim>\<open>NaN\<close>, negative zero, or any other number (indexed by an integer).
  Functions are values whose \<^verbatim>\<open>typeof\<close> is \<^verbatim>\<open>"function"\<close>: for the comparator they are
  opaque identities.
\<close>

type_synonym addr = nat

datatype num = NaN | NegZero | Fin int

datatype val =
    Undefined
  | Null
  | Boolean bool
  | Number num
  | Str string
  | Symbol nat
  | Func nat
  | Ref addr

text \<open>
  A heap object is one of the kinds the comparator distinguishes. Every object carries the
  identity of its prototype as a number; the prototype returned by
  \<^verbatim>\<open>Object.getPrototypeOf\<close> is the pair of the kind and that number, so that objects made
  by different built-in constructors never share a prototype (objects whose prototype was
  re-targeted by hand to that of another kind are outside the model).

  A plain object has its own enumerable string-keyed properties in \<^verbatim>\<open>Object.keys\<close> order,
  its own non-enumerable string-keyed properties, and its symbol-keyed properties.
  The string-keyed properties an object inherits along its prototype chain are given by
  the table \<open>inherited\<close> of the heap, indexed by the prototype number.
\<close>

datatype obj =
    ArrayObj nat "val list"
  | DateObj nat num
  | RegExpObj nat string string
  | SetObj nat "val list"
  | MapObj nat "(val \<times> val) list"
  | PlainObj nat "(string \<times> val) list" "(string \<times> val) list" "(nat \<times> val) list"

datatype kind = KArray | KDate | KRegExp | KSet | KMap | KPlain

record heap =
  cells :: "obj list"
  inherited :: "nat \<Rightarrow> (string \<times> val) list"

fun getPrototypeOf :: "obj \<Rightarrow> kind \<times> nat" where
  "getPrototypeOf (ArrayObj p _) = (KArray, p)"
| "getPrototypeOf (DateObj p _) = (KDate, p)"
| "getPrototypeOf (RegExpObj p _ _) = (KRegExp, p)"
| "getPrototypeOf (SetObj p _) = (KSet, p)"
| "getPrototypeOf (MapObj p _) = (KMap, p)"
| "getPrototypeOf (PlainObj p _ _ _) = (KPlain, p)"

definition deref :: "heap \<Rightarrow> addr \<Rightarrow> obj option" where
  "deref h a = (if a < length (cells h) then Some (cells h ! a) else None)"

text \<open>\<^verbatim>\<open>typeof v === "object" && v !== null\<close>\<close>

fun isObject :: "val \<Rightarrow> bool" where
  "isObject (Ref _) = True"
| "isObject _ = False"

text \<open>\<^verbatim>\<open>x === y\<close> on numbers: \<^verbatim>\<open>NaN\<close> differs from itself, the two zeros are equal.\<close>

fun strictEqNum :: "num \<Rightarrow> num \<Rightarrow> bool" where
  "strictEqNum NaN _ = False"
| "strictEqNum _ NaN = False"
| "strictEqNum NegZero NegZero = True"
| "strictEqNum NegZero (Fin j) = (j = 0)"
| "strictEqNum (Fin i) NegZero = (i = 0)"
| "strictEqNum (Fin i) (Fin j) = (i = j)"

text \<open>\<^verbatim>\<open>Object.keys(o)\<close>, \<^verbatim>\<open>key in o\<close> and \<^verbatim>\<open>o[key]\<close> for a plain object.\<close>

fun objectKeys :: "obj \<Rightarrow> string list" where
  "objectKeys (PlainObj _ en _ _) = map fst en"
| "objectKeys _ = []"

fun hasProperty :: "heap \<Rightarrow> obj \<Rightarrow> string \<Rightarrow> bool" where
  "hasProperty h (PlainObj p en hid _) k =
     (k \<in> set (map fst en) \<or> k \<in> set (map fst hid) \<or> k \<in> set (map fst (inherited h p)))"
| "hasProperty h _ k = False"

fun getProperty :: "heap \<Rightarrow> obj \<Rightarrow> string \<Rightarrow> val" where
  "getProperty h (PlainObj p en hid _) k =
     (case map_of en k of Some v \<Rightarrow> v
      | None \<Rightarrow> (case map_of hid k of Some v \<Rightarrow> v
         | None \<Rightarrow> (case map_of (inherited h p) k of Some v \<Rightarrow> v
            | None \<Rightarrow> Undefined)))"
| "getProperty h _ k = Undefined"

section \<open>The comparator\<close>

text \<open>
  The memo \<^verbatim>\<open>seen\<close> is a \<^verbatim>\<open>WeakMap\<close> from left-hand objects to right-hand objects. It is
  mutated by every call and shared by the whole recursion, so each call takes the memo and
  returns it updated together with its verdict. \<^verbatim>\<open>seen.set(a, b)\<close> puts the pair in front.
\<close>

type_synonym seen = "(addr \<times> addr) list"

type_synonym verdict = "(bool \<times> seen) option"

text \<open>
  The loops of the source. \<open>forEvery\<close> is a \<^verbatim>\<open>for\<close> loop that returns \<^verbatim>\<open>false\<close> at the first
  failing iteration and \<^verbatim>\<open>true\<close> at the end; \<open>forSome\<close> is the inner search loop of the Set
  and Map branches (\<^verbatim>\<open>found = true; break\<close>); \<open>andAlso\<close> is \<^verbatim>\<open>&&\<close>.
\<close>

primrec forEvery :: "('x \<Rightarrow> seen \<Rightarrow> verdict) \<Rightarrow> 'x list \<Rightarrow> seen \<Rightarrow> verdict" where
  "forEvery f [] s = Some (True, s)"
| "forEvery f (x # xs) s =
     (case f x s of
        None \<Rightarrow> None
      | Some (r, s') \<Rightarrow> if r then forEvery f xs s' else Some (False, s'))"

primrec forSome :: "('x \<Rightarrow> seen \<Rightarrow> verdict) \<Rightarrow> 'x list \<Rightarrow> seen \<Rightarrow> verdict" where
  "forSome f [] s = Some (False, s)"
| "forSome f (y # ys) s =
     (case f y s of
        None \<Rightarrow> None
      | Some (r, s') \<Rightarrow> if r then Some (True, s') else forSome f ys s')"

definition andAlso :: "(seen \<Rightarrow> verdict) \<Rightarrow> (seen \<Rightarrow> verdict) \<Rightarrow> seen \<Rightarrow> verdict" where
  "andAlso f g s =
     (case f s of
        None \<Rightarrow> None
      | Some (r, s') \<Rightarrow> if r then g s' else Some (False, s'))"

text \<open>
  The branches of \<^verbatim>\<open>deepEqual\<close> after the memo has been updated, by kind of the left-hand
  object: Array, Date, RegExp, Set, Map and the plain-object fallback. \<open>rec\<close> is the
  recursive call. Each branch reads the right-hand object as the same kind: after the
  prototype test both objects have the same kind, and no other pair reaches this point.
\<close>

fun compareObjects ::
  "(val \<Rightarrow> val \<Rightarrow> seen \<Rightarrow> verdict) \<Rightarrow> heap \<Rightarrow> obj \<Rightarrow> obj \<Rightarrow> seen \<Rightarrow> verdict" where
  "compareObjects rec h (ArrayObj _ arrA) (ArrayObj _ arrB) seen =
     (if length arrA \<noteq> length arrB then Some (False, seen)
      else forEvery (\<lambda>(x, y). rec x y) (zip arrA arrB) seen)"
| "compareObjects rec h (DateObj _ ta) (DateObj _ tb) seen = Some (strictEqNum ta tb, seen)"
| "compareObjects rec h (RegExpObj _ srcA flagsA) (RegExpObj _ srcB flagsB) seen =
     Some (srcA = srcB \<and> flagsA = flagsB, seen)"
| "compareObjects rec h (SetObj _ setA) (SetObj _ setB) seen =
     (if length setA \<noteq> length setB then Some (False, seen)
      else forEvery (\<lambda>av. forSome (\<lambda>bv. rec av bv) setB) setA seen)"
| "compareObjects rec h (MapObj _ mapA) (MapObj _ mapB) seen =
     (if length mapA \<noteq> length mapB then Some (False, seen)
      else forEvery (\<lambda>(ak, av). forSome (\<lambda>(bk, bv). andAlso (rec ak bk) (rec av bv)) mapB)
             mapA seen)"
| "compareObjects rec h (PlainObj pa ea ha sa) (PlainObj pb eb hb sb) seen =
     (case forEvery (\<lambda>key s.
              if \<not> hasProperty h (PlainObj pb eb hb sb) key then Some (False, s)
              else rec (getProperty h (PlainObj pa ea ha sa) key)
                       (getProperty h (PlainObj pb eb hb sb) key) s)
            (objectKeys (PlainObj pa ea ha sa)) seen of
        None \<Rightarrow> None
      | Some (r, s') \<Rightarrow>
          if \<not> r then Some (False, s')
          else Some (length (objectKeys (PlainObj pa ea ha sa))
                       = length (objectKeys (PlainObj pb eb hb sb)), s'))"
| "compareObjects rec h _ _ seen = None"

text \<open>
  \<^verbatim>\<open>deepEqual(a, b, seen)\<close>. The first argument bounds the depth of the recursion: the result
  \<open>None\<close> means that the bound was reached (or that a reference points outside the heap),
  \<open>Some (r, seen')\<close> that the call returned \<open>r\<close> and left the memo \<open>seen'\<close>.
\<close>

primrec deepEqual :: "nat \<Rightarrow> heap \<Rightarrow> val \<Rightarrow> val \<Rightarrow> seen \<Rightarrow> verdict" where
  "deepEqual 0 h a b seen = None"
| "deepEqual (Suc n) h a b seen =
     (if a = b then Some (True, seen)
      else if \<not> isObject a \<or> \<not> isObject b then Some (False, seen)
      else (case (a, b) of
        (Ref pa, Ref pb) \<Rightarrow>
          (case (deref h pa, deref h pb) of
            (Some oa, Some ob) \<Rightarrow>
              if getPrototypeOf oa \<noteq> getPrototypeOf ob then Some (False, seen)
              else (case map_of seen pa of
                Some cached \<Rightarrow> Some (cached = pb, seen)
              | None \<Rightarrow> compareObjects (deepEqual n h) h oa ob ((pa, pb) # seen))
          | _ \<Rightarrow> None)
      | _ \<Rightarrow> None))"

text \<open>
  A call \<^verbatim>\<open>deepEqual(a, b)\<close> with the default third argument, a fresh memo. Each recursive
  call that goes deeper has put a new left-hand object in the memo, so the depth never
  exceeds the number of objects plus one (lemma \<open>deepEqualCall_returns\<close>).
\<close>

definition deepEqualCall :: "heap \<Rightarrow> val \<Rightarrow> val \<Rightarrow> bool option" where
  "deepEqualCall h a b = map_option fst (deepEqual (Suc (length (cells h))) h a b [])"

section \<open>Well-formed heaps, trees and structural similarity\<close>

text \<open>
  What JavaScript guarantees of a heap: every reference held by an object points to an
  object, the members of a Set are distinct, and so are the keys of a Map and the own
  keys of an object. \<open>objVals\<close> lists the values the comparator can read from an object.
\<close>

fun validVal :: "heap \<Rightarrow> val \<Rightarrow> bool" where
  "validVal h (Ref p) = (p < length (cells h))"
| "validVal h _ = True"

fun objVals :: "heap \<Rightarrow> obj \<Rightarrow> val list" where
  "objVals h (ArrayObj _ xs) = xs"
| "objVals h (DateObj _ _) = []"
| "objVals h (RegExpObj _ _ _) = []"
| "objVals h (SetObj _ xs) = xs"
| "objVals h (MapObj _ kvs) = map fst kvs @ map snd kvs"
| "objVals h (PlainObj p en hid _) = map snd en @ map snd hid @ map snd (inherited h p)"

fun distinctKeys :: "obj \<Rightarrow> bool" where
  "distinctKeys (SetObj _ xs) = distinct xs"
| "distinctKeys (MapObj _ kvs) = distinct (map fst kvs)"
| "distinctKeys (PlainObj _ en _ _) = distinct (map fst en)"
| "distinctKeys _ = True"

definition wfHeap :: "heap \<Rightarrow> bool" where
  "wfHeap h = (\<forall>ob \<in> set (cells h). distinctKeys ob \<and> (\<forall>v \<in> set (objVals h ob). validVal h v))"

text \<open>
  The left-hand objects recorded in a memo, and the growth of a memo during a call: no
  entry is removed and every left-hand object recorded is an object of the heap.
\<close>

definition seenDom :: "seen \<Rightarrow> addr set" where
  "seenDom s = fst ` set s"

definition seenWithin :: "heap \<Rightarrow> seen \<Rightarrow> seen \<Rightarrow> bool" where
  "seenWithin h s s' = (seenDom s \<subseteq> seenDom s' \<and> seenDom s' \<subseteq> {..<length (cells h)})"

text \<open>
  The plain-object branch tests \<^verbatim>\<open>key in objB\<close> and reads \<^verbatim>\<open>objB[key]\<close>, which also see the
  non-enumerable and the inherited properties of \<^verbatim>\<open>objB\<close>. A heap has no shadowing when no
  own enumerable key of any object is the name of such a property of any object.
\<close>

fun hiddenKeys :: "heap \<Rightarrow> obj \<Rightarrow> string list" where
  "hiddenKeys h (PlainObj p en hid sy) = map fst hid @ map fst (inherited h p)"
| "hiddenKeys h _ = []"

definition noShadowing :: "heap \<Rightarrow> bool" where
  "noShadowing h =
     (\<forall>oa \<in> set (cells h). \<forall>ob \<in> set (cells h). \<forall>k \<in> set (objectKeys oa).
        k \<notin> set (hiddenKeys h ob))"

text \<open>
  \<open>treeAt h v A\<close>: the value \<open>v\<close> is a primitive (\<open>A\<close> is empty) or a composite that occupies
  exactly the addresses \<open>A\<close>, in which no composite is reachable along two paths (so that
  it has no cycle), and whose sets and maps have only primitive members.
\<close>

inductive treeAt :: "heap \<Rightarrow> val \<Rightarrow> addr set \<Rightarrow> bool"
  and forestAt :: "heap \<Rightarrow> val list \<Rightarrow> addr set \<Rightarrow> bool"
  for h :: heap where
  leaf: "\<not> isObject v \<Longrightarrow> treeAt h v {}"
| date: "deref h p = Some (DateObj c t) \<Longrightarrow> treeAt h (Ref p) {p}"
| regexp: "deref h p = Some (RegExpObj c src fl) \<Longrightarrow> treeAt h (Ref p) {p}"
| flatSet: "deref h p = Some (SetObj c xs) \<Longrightarrow> \<forall>x \<in> set xs. \<not> isObject x \<Longrightarrow>
     treeAt h (Ref p) {p}"
| flatMap: "deref h p = Some (MapObj c kvs) \<Longrightarrow>
     \<forall>x \<in> set kvs. \<not> isObject (fst x) \<and> \<not> isObject (snd x) \<Longrightarrow> treeAt h (Ref p) {p}"
| array: "deref h p = Some (ArrayObj c xs) \<Longrightarrow> forestAt h xs A \<Longrightarrow> p \<notin> A \<Longrightarrow>
     treeAt h (Ref p) (insert p A)"
| plain: "deref h p = Some (PlainObj c en hid sy) \<Longrightarrow> forestAt h (map snd en) A \<Longrightarrow> p \<notin> A \<Longrightarrow>
     treeAt h (Ref p) (insert p A)"
| nil: "forestAt h [] {}"
| cons: "treeAt h v A \<Longrightarrow> forestAt h vs B \<Longrightarrow> A \<inter> B = {} \<Longrightarrow> forestAt h (v # vs) (A \<union> B)"

text \<open>
  Structural similarity: the same value, or two objects of the same prototype and kind
  whose contents are similar (for sets and maps: that have the same members, which is
  the structural comparison when the members are primitives). It does not look at
  symbol-keyed members nor at the order of the keys.
\<close>

inductive sim :: "heap \<Rightarrow> val \<Rightarrow> val \<Rightarrow> bool" for h :: heap where
  same: "sim h v v"
| arrays: "deref h p = Some (ArrayObj c xs) \<Longrightarrow> deref h q = Some (ArrayObj c ys) \<Longrightarrow>
     list_all2 (sim h) xs ys \<Longrightarrow> sim h (Ref p) (Ref q)"
| dates: "deref h p = Some (DateObj c t) \<Longrightarrow> deref h q = Some (DateObj c u) \<Longrightarrow>
     strictEqNum t u \<Longrightarrow> sim h (Ref p) (Ref q)"
| regexps: "deref h p = Some (RegExpObj c src fl) \<Longrightarrow> deref h q = Some (RegExpObj c src fl) \<Longrightarrow>
     sim h (Ref p) (Ref q)"
| sets: "deref h p = Some (SetObj c xs) \<Longrightarrow> deref h q = Some (SetObj c ys) \<Longrightarrow>
     length xs = length ys \<Longrightarrow> set xs = set ys \<Longrightarrow> sim h (Ref p) (Ref q)"
| maps: "deref h p = Some (MapObj c kvs) \<Longrightarrow> deref h q = Some (MapObj c kvs') \<Longrightarrow>
     length kvs = length kvs' \<Longrightarrow> set kvs = set kvs' \<Longrightarrow> sim h (Ref p) (Ref q)"
| plains: "deref h p = Some (PlainObj c en hid sy) \<Longrightarrow>
     deref h q = Some (PlainObj c en' hid' sy') \<Longrightarrow>
     set (map fst en) = set (map fst en') \<Longrightarrow>
     (\<forall>k v v'. map_of en k = Some v \<longrightarrow> map_of en' k = Some v' \<longrightarrow> sim h v v') \<Longrightarrow>
     sim h (Ref p) (Ref q)"

section \<open>Callbacks\<close>

text \<open>
  The store calls code it does not own: the reducer, the listeners, the middleware layers
  and the thunks. Such a callback can compute on objects, throw, and call back into the
  store through whatever it has captured. A callback is therefore a program whose steps
  are the requests it makes; the store answers each request and resumes the program with
  the answer. A request to dispatch is answered with the thrown error or the returned
  value, so a program may catch (continue after \<open>Inl\<close>) or let the error propagate.

  \<^item> \<open>ViaStore\<close>: \<^verbatim>\<open>store.dispatch(action)\<close>, the property of the store object, read when called;
  \<^item> \<open>ViaPipeline\<close>: the function returned by \<^verbatim>\<open>applyMiddleware\<close> (its variable \<^verbatim>\<open>dispatch\<close>),
    which a thunk receives as its first argument;
  \<^item> \<open>ViaApi\<close>: the \<^verbatim>\<open>dispatch\<close> of the object handed to each middleware;
  \<^item> \<open>ViaNext\<close>: the \<^verbatim>\<open>next\<close> of a middleware layer;
  \<^item> \<open>ViaRaw\<close>: \<^verbatim>\<open>guardedDispatch\<close>, the guarded raw dispatch under the last layer.
\<close>

datatype error = Error string

datatype action = Plain string val | Thunk nat

datatype target = ViaStore | ViaPipeline | ViaApi | ViaNext | ViaRaw

datatype prog =
    Return val
  | Throw error
  | GetState "val \<Rightarrow> prog"
  | Heap "heap \<Rightarrow> heap \<times> val" "val \<Rightarrow> prog"
  | Subscribe nat prog
  | Unsubscribe nat prog
  | Dispatch target action "error + val \<Rightarrow> prog"

section \<open>The store\<close>

text \<open>
  \<^verbatim>\<open>createStore\<close> closes over \<^verbatim>\<open>currentState\<close> and \<^verbatim>\<open>listeners\<close>; \<^verbatim>\<open>applyMiddleware\<close> closes
  over \<^verbatim>\<open>isReducing\<close>; the store object has the assignable property \<^verbatim>\<open>dispatch\<close>. These
  mutable cells, with the object heap, are the state of the model.

  The listener set is a JavaScript \<^verbatim>\<open>Set\<close> of functions. A function is identified by a
  number; \<open>listenerFn\<close> and \<open>thunkFn\<close> give the body of each. As in ECMAScript, the set
  keeps its entries in insertion order, \<^verbatim>\<open>delete\<close> leaves an empty slot (\<open>None\<close>) and
  \<^verbatim>\<open>forEach\<close> walks the slots by index, so that entries removed before their turn are
  skipped and entries added during the walk are visited.

  \<open>notified\<close> and \<open>thunkCalls\<close> are not cells of the program: they log each call of a
  listener (with the argument it was passed, which is the content of the state cell at
  that moment) and each call of a thunk by the pipeline, as a test's mock function would.
\<close>

datatype dispatcher = BaseDispatch | ComposedDispatch

record world =
  objects :: heap
  currentState :: val
  listeners :: "nat option list"
  dispatchProp :: dispatcher
  isReducing :: bool
  notified :: "(nat \<times> val) list"
  thunkCalls :: "nat list"

text \<open>
  A middleware is given by the dispatcher it yields once constructed,
  \<^verbatim>\<open>mw(api)(next)\<close>, a function of the action; its two construction steps are taken to run
  no store operation (so the placeholder \<^verbatim>\<open>dispatch\<close> that throws during construction is
  never called).
\<close>

record cfg =
  reducer :: "val \<Rightarrow> action \<Rightarrow> prog"
  middlewares :: "(action \<Rightarrow> prog) list"
  listenerFn :: "nat \<Rightarrow> val \<Rightarrow> prog"
  thunkFn :: "nat \<Rightarrow> prog"

type_synonym outcome = "((error + val) \<times> world) option"

type_synonym handler = "target \<Rightarrow> action \<Rightarrow> world \<Rightarrow> outcome"

text \<open>\<^verbatim>\<open>listeners.add(listener)\<close> and \<^verbatim>\<open>listeners.delete(listener)\<close>.\<close>

definition subscribe :: "nat \<Rightarrow> world \<Rightarrow> world" where
  "subscribe l w =
     (if Some l \<in> set (listeners w) then w
      else w\<lparr>listeners := listeners w @ [Some l]\<rparr>)"

definition unsubscribe :: "nat \<Rightarrow> world \<Rightarrow> world" where
  "unsubscribe l w =
     w\<lparr>listeners := map (\<lambda>e. if e = Some l then None else e) (listeners w)\<rparr>"

definition getState :: "world \<Rightarrow> val" where
  "getState w = currentState w"

text \<open>
  Running a callback: the result is \<open>None\<close> when a dispatch it requested has no result,
  otherwise what it returned or threw, with the state it left.
\<close>

primrec runProg :: "handler \<Rightarrow> prog \<Rightarrow> world \<Rightarrow> outcome" where
  "runProg d (Return v) w = Some (Inr v, w)"
| "runProg d (Throw e) w = Some (Inl e, w)"
| "runProg d (GetState k) w = runProg d (k (getState w)) w"
| "runProg d (Heap f k) w =
     runProg d (k (snd (f (objects w)))) (w\<lparr>objects := fst (f (objects w))\<rparr>)"
| "runProg d (Subscribe l p) w = runProg d p (subscribe l w)"
| "runProg d (Unsubscribe l p) w = runProg d p (unsubscribe l w)"
| "runProg d (Dispatch t a k) w =
     (case d t a w of
        None \<Rightarrow> None
      | Some (r, w') \<Rightarrow> runProg d (k r) w')"

text \<open>
  \<^verbatim>\<open>listeners.forEach((listener) => { listener(currentState); })\<close> from slot \<open>i\<close> on.
  A listener may add listeners for ever, so the walk is bounded by its first argument.
\<close>

primrec forEachListener :: "nat \<Rightarrow> handler \<Rightarrow> cfg \<Rightarrow> nat \<Rightarrow> world \<Rightarrow> outcome" where
  "forEachListener 0 d c i w = None"
| "forEachListener (Suc k) d c i w =
     (if i < length (listeners w) then
        (case listeners w ! i of
           None \<Rightarrow> forEachListener k d c (Suc i) w
         | Some l \<Rightarrow>
             (case runProg d (listenerFn c l (currentState w))
                     (w\<lparr>notified := notified w @ [(l, currentState w)]\<rparr>) of
                None \<Rightarrow> None
              | Some (Inl e, w') \<Rightarrow> Some (Inl e, w')
              | Some (Inr _, w') \<Rightarrow> forEachListener k d c (Suc i) w'))
      else Some (Inr Undefined, w))"

text \<open>\<^verbatim>\<open>baseDispatch\<close> of create-store.ts.\<close>

definition baseDispatch :: "handler \<Rightarrow> nat \<Rightarrow> cfg \<Rightarrow> action \<Rightarrow> world \<Rightarrow> outcome" where
  "baseDispatch d k c action w =
     (case runProg d (reducer c (currentState w) action) w of
        None \<Rightarrow> None
      | Some (Inl e, w1) \<Rightarrow> Some (Inl e, w1)
      | Some (Inr nextState, w1) \<Rightarrow>
          (case deepEqualCall (objects w1) nextState (currentState w1) of
             None \<Rightarrow> None
           | Some eq \<Rightarrow>
               if \<not> eq then forEachListener k d c 0 (w1\<lparr>currentState := nextState\<rparr>)
               else Some (Inr Undefined, w1)))"

text \<open>
  \<^verbatim>\<open>guardedDispatch\<close> of apply-middleware.ts. The test of the flag is outside the
  \<^verbatim>\<open>try\<close>, so a rejected call leaves the flag as it is; \<^verbatim>\<open>finally\<close> clears it on return and
  on throw. \<^verbatim>\<open>store.dispatch(action)\<close> reads the property of the store at the call.
\<close>

definition reentrancyError :: error where
  "reentrancyError = Error ''Dispatching while a reducer is executing is not allowed.''"

definition guardedDispatch :: "handler \<Rightarrow> action \<Rightarrow> world \<Rightarrow> outcome" where
  "guardedDispatch d action w =
     (if isReducing w then Some (Inl reentrancyError, w)
      else (case d ViaStore action (w\<lparr>isReducing := True\<rparr>) of
              None \<Rightarrow> None
            | Some (r, w') \<Rightarrow> Some (r, w'\<lparr>isReducing := False\<rparr>)))"

text \<open>
  \<^verbatim>\<open>chain.reduceRight((next, mw) => mw(next), guardedDispatch)\<close>: the first middleware is
  outermost and the \<^verbatim>\<open>next\<close> of each layer is the composition of the layers after it.
\<close>

primrec composed :: "handler \<Rightarrow> (action \<Rightarrow> prog) list \<Rightarrow> action \<Rightarrow> world \<Rightarrow> outcome" where
  "composed d [] action w = guardedDispatch d action w"
| "composed d (mw # rest) action w =
     runProg (\<lambda>t. case t of ViaNext \<Rightarrow> composed d rest | _ \<Rightarrow> d t) (mw action) w"

text \<open>
  The \<^verbatim>\<open>dispatch\<close> given to each middleware: a function is called with the pipeline's
  dispatch and \<^verbatim>\<open>store.getState\<close>, anything else goes to the pipeline's dispatch.
\<close>

definition apiDispatch :: "handler \<Rightarrow> cfg \<Rightarrow> action \<Rightarrow> world \<Rightarrow> outcome" where
  "apiDispatch d c action w =
     (case action of
        Thunk t \<Rightarrow> runProg d (thunkFn c t) (w\<lparr>thunkCalls := thunkCalls w @ [t]\<rparr>)
      | Plain _ _ \<Rightarrow>
          (case d ViaPipeline action w of
             None \<Rightarrow> None
           | Some (Inl e, w') \<Rightarrow> Some (Inl e, w')
           | Some (Inr _, w') \<Rightarrow> Some (Inr Undefined, w')))"

text \<open>
  Each way of dispatching, with a bound on the nesting of the calls between the store
  and its callbacks; \<open>None\<close> when the bound is reached. Outside a middleware layer there is
  no \<^verbatim>\<open>next\<close>.
\<close>

primrec perform :: "nat \<Rightarrow> cfg \<Rightarrow> target \<Rightarrow> action \<Rightarrow> world \<Rightarrow> outcome" where
  "perform 0 c t action w = None"
| "perform (Suc n) c t action w =
     (case t of
        ViaStore \<Rightarrow>
          (case dispatchProp w of
             BaseDispatch \<Rightarrow> baseDispatch (perform n c) n c action w
           | ComposedDispatch \<Rightarrow> composed (perform n c) (middlewares c) action w)
      | ViaPipeline \<Rightarrow> composed (perform n c) (middlewares c) action w
      | ViaApi \<Rightarrow> apiDispatch (perform n c) c action w
      | ViaRaw \<Rightarrow> guardedDispatch (perform n c) action w
      | ViaNext \<Rightarrow> None)"

text \<open>
  \<^verbatim>\<open>createStore(reducer, initialState, middlewares)\<close>: the configuration of the store and
  its initial state. With a non-empty list the property \<^verbatim>\<open>store.dispatch\<close> is overwritten
  with the result of \<^verbatim>\<open>applyMiddleware(store, middlewares)\<close>.
\<close>

definition createStore ::
  "(nat \<Rightarrow> val \<Rightarrow> prog) \<Rightarrow> (nat \<Rightarrow> prog) \<Rightarrow> heap \<Rightarrow>
   (val \<Rightarrow> action \<Rightarrow> prog) \<Rightarrow> val \<Rightarrow> (action \<Rightarrow> prog) list \<Rightarrow> cfg \<times> world" where
  "createStore lf tf h r initialState mws =
     (\<lparr>reducer = r, middlewares = mws, listenerFn = lf, thunkFn = tf\<rparr>,
      \<lparr>objects = h, currentState = initialState, listeners = [],
       dispatchProp = (if length mws > 0 then ComposedDispatch else BaseDispatch),
       isReducing = False, notified = [], thunkCalls = []\<rparr>)"

text \<open>\<^verbatim>\<open>store.dispatch(action)\<close> called from outside.\<close>

definition dispatch :: "nat \<Rightarrow> cfg \<Rightarrow> action \<Rightarrow> world \<Rightarrow> outcome" where
  "dispatch n c action w = perform n c ViaStore action w"

text \<open>
  The function returned by \<^verbatim>\<open>applyMiddleware(store, middlewares)\<close>, called from outside: the
  composed dispatch, whatever the \<^verbatim>\<open>dispatch\<close> property of the store is.
\<close>

definition applyMiddleware :: "nat \<Rightarrow> cfg \<Rightarrow> action \<Rightarrow> world \<Rightarrow> outcome" where
  "applyMiddleware n c action w = perform n c ViaPipeline action w"

section \<open>Classes of callbacks\<close>

text \<open>
  A callback is \<open>storeFree\<close> when it only computes on objects and reads the state: it
  never subscribes, unsubscribes or dispatches (a pure reducer is of this kind, and may
  throw). It is \<open>quiet\<close> when moreover it never throws.
\<close>

primrec storeFree :: "prog \<Rightarrow> bool" where
  "storeFree (Return v) = True"
| "storeFree (Throw e) = True"
| "storeFree (GetState k) = (\<forall>v. storeFree (k v))"
| "storeFree (Heap f k) = (\<forall>v. storeFree (k v))"
| "storeFree (Subscribe l p) = False"
| "storeFree (Unsubscribe l p) = False"
| "storeFree (Dispatch t a k) = False"



text \<open>The listeners registered in the set, in insertion order.\<close>

primrec live :: "nat option list \<Rightarrow> nat list" where
  "live [] = []"
| "live (e # es) = (case e of None \<Rightarrow> live es | Some l \<Rightarrow> l # live es)"

text \<open>A way of dispatching keeps the guard's flag when it never clears a flag that is set.\<close>

definition keepsFlag :: "handler \<Rightarrow> bool" where
  "keepsFlag d =
     (\<forall>t a w r w'. isReducing w \<longrightarrow> d t a w = Some (r, w') \<longrightarrow> isReducing w')"

text \<open>
  A property of the state of the store is \<open>stable\<close> when no elementary step of the store
  breaks it; a way of dispatching \<open>preserves\<close> a property when it never breaks it.
\<close>

definition stable :: "(world \<Rightarrow> bool) \<Rightarrow> bool" where
  "stable P =
     ((\<forall>w h. P w \<longrightarrow> P (w\<lparr>objects := h\<rparr>))
      \<and> (\<forall>w s. P w \<longrightarrow> P (w\<lparr>currentState := s\<rparr>))
      \<and> (\<forall>w l. P w \<longrightarrow> P (subscribe l w))
      \<and> (\<forall>w l. P w \<longrightarrow> P (unsubscribe l w))
      \<and> (\<forall>w b. P w \<longrightarrow> P (w\<lparr>isReducing := b\<rparr>))
      \<and> (\<forall>w n. P w \<longrightarrow> P (w\<lparr>notified := n\<rparr>))
      \<and> (\<forall>w t. P w \<longrightarrow> P (w\<lparr>thunkCalls := t\<rparr>)))"

definition preserves :: "(world \<Rightarrow> bool) \<Rightarrow> handler \<Rightarrow> bool" where
  "preserves P d = (\<forall>t a w r w'. P w \<longrightarrow> d t a w = Some (r, w') \<longrightarrow> P w')"

section \<open>Example stores\<close>

text \<open>
  The store of the repository's tests and README: the state is an object \<^verbatim>\<open>{count: n}\<close>,
  the reducer returns \<^verbatim>\<open>{count: state.count + 1}\<close> on \<^verbatim>\<open>"inc"\<close>, a fresh
  \<^verbatim>\<open>{count: state.count}\<close> on \<^verbatim>\<open>"clone"\<close>, throws on \<^verbatim>\<open>"boom"\<close> and returns the state it
  was given otherwise. The counts are integers: the examples count from 0 to 2, where the
  addition of JavaScript numbers is exact.
\<close>

definition counterHeap :: heap where
  "counterHeap =
     \<lparr>cells = [PlainObj 0 [(''count'', Number (Fin 0))] [] []], inherited = (\<lambda>_. [])\<rparr>"

definition alloc :: "obj \<Rightarrow> heap \<Rightarrow> heap \<times> val" where
  "alloc ob h = (h\<lparr>cells := cells h @ [ob]\<rparr>, Ref (length (cells h)))"

definition countOf :: "heap \<Rightarrow> val \<Rightarrow> int" where
  "countOf h st =
     (case st of
        Ref p \<Rightarrow>
          (case deref h p of
             Some ob \<Rightarrow> (case getProperty h ob ''count'' of Number (Fin n) \<Rightarrow> n | _ \<Rightarrow> 0)
           | None \<Rightarrow> 0)
      | _ \<Rightarrow> 0)"

definition counterReducer :: "val \<Rightarrow> action \<Rightarrow> prog" where
  "counterReducer st a =
     (case a of
        Plain ty _ \<Rightarrow>
          if ty = ''inc'' then
            Heap (\<lambda>h. alloc (PlainObj 0 [(''count'', Number (Fin (countOf h st + 1)))] [] []) h)
              Return
          else if ty = ''clone'' then
            Heap (\<lambda>h. alloc (PlainObj 0 [(''count'', Number (Fin (countOf h st)))] [] []) h)
              Return
          else if ty = ''boom'' then Throw (Error ''boom'')
          else Return st
      | Thunk _ \<Rightarrow> Return st)"

text \<open>
  The middleware \<^verbatim>\<open>() => (next) => (action) => next(action)\<close>: it forwards the action to
  \<^verbatim>\<open>next\<close>, returns what \<^verbatim>\<open>next\<close> returns and lets what it throws propagate.
\<close>

definition passThrough :: "action \<Rightarrow> prog" where
  "passThrough a = Dispatch ViaNext a (\<lambda>r. case r of Inl e \<Rightarrow> Throw e | Inr v \<Rightarrow> Return v)"

definition noListener :: "nat \<Rightarrow> val \<Rightarrow> prog" where
  "noListener l st = Return Undefined"

definition noThunk :: "nat \<Rightarrow> prog" where
  "noThunk t = Return Undefined"

text \<open>\<^verbatim>\<open>createStore(reducer, {count: 0}, [passThrough])\<close> and \<^verbatim>\<open>createStore(reducer, {count: 0})\<close>.\<close>

definition middlewareStore :: "cfg \<times> world" where
  "middlewareStore =
     createStore noListener noThunk counterHeap counterReducer (Ref 0) [passThrough]"

definition plainStore :: "cfg \<times> world" where
  "plainStore = createStore noListener noThunk counterHeap counterReducer (Ref 0) []"

text \<open>What a test observes of an outcome: the result, the count in the state, the calls of
  the listeners (with the count each was passed) and the guard's flag.\<close>

definition notifiedCounts :: "world \<Rightarrow> (nat \<times> int) list" where
  "notifiedCounts w = map (\<lambda>(l, v). (l, countOf (objects w) v)) (notified w)"

definition observe ::
  "outcome \<Rightarrow> ((error + val) \<times> int \<times> (nat \<times> int) list \<times> bool) option" where
  "observe =
     map_option (\<lambda>(r, w). (r, countOf (objects w) (currentState w), notifiedCounts w,
                            isReducing w))"


definition withObject :: "obj \<Rightarrow> world \<Rightarrow> world" where
  "withObject ob w = w\<lparr>objects := fst (alloc ob (objects w))\<rparr>"







text \<open>
  A store whose state is a number and whose reducer counts the functions it is given as
  actions; its thunks throw when called.
\<close>

definition thunkCountingReducer :: "val \<Rightarrow> action \<Rightarrow> prog" where
  "thunkCountingReducer st a =
     (case a of
        Thunk _ \<Rightarrow>
          (case st of Number (Fin n) \<Rightarrow> Return (Number (Fin (n + 1))) | _ \<Rightarrow> Return st)
      | Plain _ _ \<Rightarrow> Return st)"

definition throwingThunk :: "nat \<Rightarrow> prog" where
  "throwingThunk t = Throw (Error ''thunk called'')"

definition emptyHeap :: heap where
  "emptyHeap = \<lparr>cells = [], inherited = (\<lambda>_. [])\<rparr>"

definition thunkStore :: "cfg \<times> world" where
  "thunkStore =
     createStore noListener throwingThunk emptyHeap thunkCountingReducer (Number (Fin 0)) []"

text \<open>
  A reducer that, on \<^verbatim>\<open>"nested"\<close>, calls the guarded raw dispatch with \<^verbatim>\<open>"inc"\<close> and lets
  the error propagate; the pipeline \<^verbatim>\<open>applyMiddleware(store, [passThrough])\<close> is built over
  a store created without middleware.
\<close>

definition reentrantReducer :: "val \<Rightarrow> action \<Rightarrow> prog" where
  "reentrantReducer st a =
     (case a of
        Plain ty _ \<Rightarrow>
          if ty = ''nested'' then
            Dispatch ViaRaw (Plain ''inc'' Undefined)
              (\<lambda>r. case r of Inl e \<Rightarrow> Throw e | Inr _ \<Rightarrow> Return st)
          else counterReducer st a
      | Thunk _ \<Rightarrow> Return st)"

definition reentrantStore :: "cfg \<times> world" where
  "reentrantStore =
     (fst (createStore noListener noThunk counterHeap reentrantReducer (Ref 0) [])
        \<lparr>middlewares := [passThrough]\<rparr>,
      snd (createStore noListener noThunk counterHeap reentrantReducer (Ref 0) []))"

section \<open>Example heaps\<close>

text \<open>
  \<open>objectProto\<close> is what an object literal inherits from \<^verbatim>\<open>Object.prototype\<close> (prototype 0):
  \<^verbatim>\<open>constructor\<close> (the function \<^verbatim>\<open>Object\<close>) and the methods of the prototype. None of them is
  enumerable, so \<^verbatim>\<open>Object.keys\<close> lists none of them and \<^verbatim>\<open>key in o\<close> is true of each.
\<close>

definition one :: val where "one = Number (Fin 1)"

definition two :: val where "two = Number (Fin 2)"

definition objectProto :: "nat \<Rightarrow> (string \<times> val) list" where
  "objectProto p =
     (if p = 0 then
        [(''constructor'', Func 0), (''toString'', Func 1), (''toLocaleString'', Func 2),
         (''valueOf'', Func 3), (''hasOwnProperty'', Func 4), (''isPrototypeOf'', Func 5),
         (''propertyIsEnumerable'', Func 6)]
      else [])"

text \<open>
  \<^verbatim>\<open>{a: [1, 2], b: new Date(5), n: 1}\<close> (with a symbol-keyed member) at address 0 and
  \<^verbatim>\<open>{n: 1, b: new Date(5), a: [1, 2]}\<close> at address 3.
\<close>

definition treeHeap :: heap where
  "treeHeap =
     \<lparr>cells = [PlainObj 0 [(''a'', Ref 1), (''b'', Ref 2), (''n'', one)] [] [(0, one)],
               ArrayObj 0 [one, two],
               DateObj 0 (Fin 5),
               PlainObj 0 [(''n'', one), (''b'', Ref 5), (''a'', Ref 4)] [] [],
               ArrayObj 0 [one, two],
               DateObj 0 (Fin 5)],
      inherited = objectProto\<rparr>"



definition sharedRecordHeap :: heap where
  "sharedRecordHeap =
     \<lparr>cells = [PlainObj 0 [(''x'', Ref 2), (''y'', Ref 2)] [] [],
               PlainObj 0 [(''x'', Ref 3), (''y'', Ref 4)] [] [],
               PlainObj 0 [] [] [], PlainObj 0 [] [] [], PlainObj 0 [] [] []],
      inherited = objectProto\<rparr>"

text \<open>\<^verbatim>\<open>{constructor: Object, x: 1}\<close> at address 0 and \<^verbatim>\<open>{x: 1, y: 2}\<close> at address 1.\<close>

definition inheritedHeap :: heap where
  "inheritedHeap =
     \<lparr>cells = [PlainObj 0 [(''constructor'', Func 0), (''x'', one)] [] [],
               PlainObj 0 [(''x'', one), (''y'', two)] [] []],
      inherited = objectProto\<rparr>"

text \<open>
  Self-referential values. In \<open>cyclicHeap\<close>: \<^verbatim>\<open>a = {self: a, v: 1}\<close>, \<^verbatim>\<open>b = {self: b, v: 1}\<close>
  and \<^verbatim>\<open>c = {self: c, v: 2}\<close>. In \<open>cyclicSetHeap\<close>, built twice by the same construction:
  \<^verbatim>\<open>a = []; a.push(a, new Set([{v: 1}, {v: 2}]))\<close> at addresses 0 and 1. In
  \<open>falsePositiveHeap\<close>: \<^verbatim>\<open>a = [a, new Set([P, Q])]\<close> and \<^verbatim>\<open>b = [b, new Set([R, P])]\<close> with
  \<^verbatim>\<open>P = [x, 1]\<close>, \<^verbatim>\<open>Q = [x, 2]\<close>, \<^verbatim>\<open>R = [y, 2]\<close>, \<^verbatim>\<open>x = {v: 1}\<close>, \<^verbatim>\<open>y = {v: 2}\<close>: no member of
  the second set is structurally equal to \<^verbatim>\<open>Q\<close>.
\<close>

definition cyclicHeap :: heap where
  "cyclicHeap =
     \<lparr>cells = [PlainObj 0 [(''self'', Ref 0), (''v'', one)] [] [],
               PlainObj 0 [(''self'', Ref 1), (''v'', one)] [] [],
               PlainObj 0 [(''self'', Ref 2), (''v'', two)] [] []],
      inherited = objectProto\<rparr>"

definition cyclicSetHeap :: heap where
  "cyclicSetHeap =
     \<lparr>cells = [ArrayObj 0 [Ref 0, Ref 2], ArrayObj 0 [Ref 1, Ref 3],
               SetObj 0 [Ref 4, Ref 5], SetObj 0 [Ref 6, Ref 7],
               PlainObj 0 [(''v'', one)] [] [], PlainObj 0 [(''v'', two)] [] [],
               PlainObj 0 [(''v'', one)] [] [], PlainObj 0 [(''v'', two)] [] []],
      inherited = objectProto\<rparr>"

definition falsePositiveHeap :: heap where
  "falsePositiveHeap =
     \<lparr>cells = [ArrayObj 0 [Ref 0, Ref 2], ArrayObj 0 [Ref 1, Ref 3],
               SetObj 0 [Ref 4, Ref 5], SetObj 0 [Ref 6, Ref 4],
               ArrayObj 0 [Ref 7, one], ArrayObj 0 [Ref 7, two], ArrayObj 0 [Ref 8, two],
               PlainObj 0 [(''v'', one)] [] [], PlainObj 0 [(''v'', two)] [] []],
      inherited = objectProto\<rparr>"

section \<open>The comparator returns\<close>

lemma seenWithin_trans: "seenWithin h s s' \<Longrightarrow> seenWithin h s' s'' \<Longrightarrow> seenWithin h s s''"
  unfolding seenWithin_def by blast

lemma seenWithin_refl: "seenDom s \<subseteq> {..<length (cells h)} \<Longrightarrow> seenWithin h s s"
  by (simp add: seenWithin_def)

lemma seenWithin_card:
  "seenWithin h s s' \<Longrightarrow> card (seenDom s) \<le> card (seenDom s')"
  unfolding seenWithin_def by (meson card_mono finite_lessThan finite_subset)

text \<open>
  Each loop returns when the calls it makes return, and the memo only grows, within the
  addresses of the heap.
\<close>

lemma forEvery_total:
  assumes "\<And>x s. x \<in> set xs \<Longrightarrow> seenWithin h s0 s \<Longrightarrow> \<exists>r s'. f x s = Some (r, s') \<and> seenWithin h s s'"
    and "seenWithin h s0 s"
  shows "\<exists>r s'. forEvery f xs s = Some (r, s') \<and> seenWithin h s s'"
  using assms
proof (induction xs arbitrary: s)
  case Nil
  then show ?case by (auto simp: seenWithin_def)
next
  case (Cons x xs)
  from Cons.prems(1)[of x s] Cons.prems(2) obtain r1 s1 where
    1: "f x s = Some (r1, s1)" and 2: "seenWithin h s s1" by auto
  have 3: "seenWithin h s0 s1" using seenWithin_trans[OF Cons.prems(2) 2] .
  show ?case
  proof (cases r1)
    case True
    have "\<exists>r s'. forEvery f xs s1 = Some (r, s') \<and> seenWithin h s1 s'"
      using Cons.IH[OF _ 3] Cons.prems(1) by simp
    then show ?thesis using 1 2 True by (auto intro: seenWithin_trans)
  next
    case False
    then show ?thesis using 1 2 by auto
  qed
qed

lemma forSome_total:
  assumes "\<And>x s. x \<in> set xs \<Longrightarrow> seenWithin h s0 s \<Longrightarrow> \<exists>r s'. f x s = Some (r, s') \<and> seenWithin h s s'"
    and "seenWithin h s0 s"
  shows "\<exists>r s'. forSome f xs s = Some (r, s') \<and> seenWithin h s s'"
  using assms
proof (induction xs arbitrary: s)
  case Nil
  then show ?case by (auto simp: seenWithin_def)
next
  case (Cons x xs)
  from Cons.prems(1)[of x s] Cons.prems(2) obtain r1 s1 where
    1: "f x s = Some (r1, s1)" and 2: "seenWithin h s s1" by auto
  have 3: "seenWithin h s0 s1" using seenWithin_trans[OF Cons.prems(2) 2] .
  show ?case
  proof (cases r1)
    case False
    have "\<exists>r s'. forSome f xs s1 = Some (r, s') \<and> seenWithin h s1 s'"
      using Cons.IH[OF _ 3] Cons.prems(1) by simp
    then show ?thesis using 1 2 False by (auto intro: seenWithin_trans)
  next
    case True
    then show ?thesis using 1 2 by auto
  qed
qed

lemma andAlso_total:
  assumes "\<And>s. seenWithin h s0 s \<Longrightarrow> \<exists>r s'. f s = Some (r, s') \<and> seenWithin h s s'"
    and "\<And>s. seenWithin h s0 s \<Longrightarrow> \<exists>r s'. g s = Some (r, s') \<and> seenWithin h s s'"
    and "seenWithin h s0 s"
  shows "\<exists>r s'. andAlso f g s = Some (r, s') \<and> seenWithin h s s'"
proof -
  from assms(1)[OF assms(3)] obtain r1 s1 where
    1: "f s = Some (r1, s1)" and 2: "seenWithin h s s1" by auto
  have 3: "seenWithin h s0 s1" using seenWithin_trans[OF assms(3) 2] .
  show ?thesis
  proof (cases r1)
    case True
    from assms(2)[OF 3] obtain r2 s2 where "g s1 = Some (r2, s2)" "seenWithin h s1 s2" by auto
    then show ?thesis using 1 2 True by (auto simp: andAlso_def intro: seenWithin_trans)
  next
    case False
    then show ?thesis using 1 2 by (auto simp: andAlso_def)
  qed
qed

lemma deref_Some: "p < length (cells h) \<Longrightarrow> \<exists>ob. deref h p = Some ob \<and> ob \<in> set (cells h)"
  by (simp add: deref_def)

lemma wfHeap_objVals:
  "wfHeap h \<Longrightarrow> ob \<in> set (cells h) \<Longrightarrow> v \<in> set (objVals h ob) \<Longrightarrow> validVal h v"
  by (simp add: wfHeap_def)

lemma getProperty_valid:
  assumes "wfHeap h" "ob \<in> set (cells h)"
  shows "validVal h (getProperty h ob k)"
proof (cases ob)
  case (PlainObj p en hid sy)
  have "getProperty h ob k = Undefined \<or> getProperty h ob k \<in> set (objVals h ob)"
    unfolding PlainObj
    by (auto split: option.splits dest!: map_of_SomeD simp: image_iff) force+
  then show ?thesis using wfHeap_objVals[OF assms] by auto
qed simp_all

lemma compareObjects_total:
  assumes wf: "wfHeap h" and oa: "oa \<in> set (cells h)" and ob: "ob \<in> set (cells h)"
    and proto: "getPrototypeOf oa = getPrototypeOf ob"
    and rec: "\<And>x y s. validVal h x \<Longrightarrow> validVal h y \<Longrightarrow> seenWithin h s1 s \<Longrightarrow>
               \<exists>r s'. rec x y s = Some (r, s') \<and> seenWithin h s s'"
    and s1: "seenWithin h s1 s1"
  shows "\<exists>r s'. compareObjects rec h oa ob s1 = Some (r, s') \<and> seenWithin h s1 s'"
proof (cases oa)
  case (ArrayObj pa arrA)
  with proto obtain arrB where B: "ob = ArrayObj pa arrB" by (cases ob) auto
  have "\<exists>r s'. forEvery (\<lambda>(x, y). rec x y) (zip arrA arrB) s1 = Some (r, s') \<and> seenWithin h s1 s'"
  proof (rule forEvery_total[OF _ s1])
    fix x s assume x: "x \<in> set (zip arrA arrB)" and s: "seenWithin h s1 s"
    obtain u v where uv: "x = (u, v)" by (cases x)
    have "validVal h u" using wfHeap_objVals[OF wf oa, of u] x uv ArrayObj
      by (auto dest: set_zip_leftD)
    moreover have "validVal h v" using wfHeap_objVals[OF wf ob, of v] x uv B
      by (auto dest: set_zip_rightD)
    ultimately show "\<exists>r s'. (case x of (x, y) \<Rightarrow> rec x y) s = Some (r, s') \<and> seenWithin h s s'"
      using rec[OF _ _ s] uv by simp
  qed
  then show ?thesis using ArrayObj B s1 by auto
next
  case (DateObj pa ta)
  with proto obtain tb where "ob = DateObj pa tb" by (cases ob) auto
  then show ?thesis using DateObj s1 by simp
next
  case (RegExpObj pa sa fa)
  with proto obtain sb fb where "ob = RegExpObj pa sb fb" by (cases ob) auto
  then show ?thesis using RegExpObj s1 by simp
next
  case (SetObj pa setA)
  with proto obtain setB where B: "ob = SetObj pa setB" by (cases ob) auto
  have "\<exists>r s'. forEvery (\<lambda>av. forSome (\<lambda>bv. rec av bv) setB) setA s1 = Some (r, s') \<and> seenWithin h s1 s'"
  proof (rule forEvery_total[OF _ s1])
    fix av s assume av: "av \<in> set setA" and s: "seenWithin h s1 s"
    have va: "validVal h av" using wfHeap_objVals[OF wf oa, of av] av SetObj by simp
    show "\<exists>r s'. forSome (\<lambda>bv. rec av bv) setB s = Some (r, s') \<and> seenWithin h s s'"
    proof (rule forSome_total[where ?s0.0 = s1, OF _ s])
      fix bv t assume bv: "bv \<in> set setB" and t: "seenWithin h s1 t"
      have "validVal h bv" using wfHeap_objVals[OF wf ob, of bv] bv B by simp
      from rec[OF va this t] show "\<exists>r s'. rec av bv t = Some (r, s') \<and> seenWithin h t s'" .
    qed
  qed
  then show ?thesis using SetObj B s1 by auto
next
  case (MapObj pa mapA)
  with proto obtain mapB where B: "ob = MapObj pa mapB" by (cases ob) auto
  have "\<exists>r s'. forEvery (\<lambda>(ak, av). forSome (\<lambda>(bk, bv). andAlso (rec ak bk) (rec av bv)) mapB)
             mapA s1 = Some (r, s') \<and> seenWithin h s1 s'"
  proof (rule forEvery_total[OF _ s1])
    fix x s assume x: "x \<in> set mapA" and s: "seenWithin h s1 s"
    obtain ak av where kv: "x = (ak, av)" by (cases x)
    have vk: "validVal h ak" and vv: "validVal h av"
      using wfHeap_objVals[OF wf oa, of ak] wfHeap_objVals[OF wf oa, of av] x kv MapObj
      by force+
    have "\<exists>r s'. forSome (\<lambda>(bk, bv). andAlso (rec ak bk) (rec av bv)) mapB s = Some (r, s') \<and> seenWithin h s s'"
    proof (rule forSome_total[where ?s0.0 = s1, OF _ s])
      fix y t assume y: "y \<in> set mapB" and t: "seenWithin h s1 t"
      obtain bk bv where bkv: "y = (bk, bv)" by (cases y)
      have wk: "validVal h bk" and wv: "validVal h bv"
        using wfHeap_objVals[OF wf ob, of bk] wfHeap_objVals[OF wf ob, of bv] y bkv B
        by force+
      have "\<exists>r s'. andAlso (rec ak bk) (rec av bv) t = Some (r, s') \<and> seenWithin h t s'"
        by (rule andAlso_total[where ?s0.0 = s1, OF rec[OF vk wk] rec[OF vv wv] t])
      then show "\<exists>r s'. (case y of (bk, bv) \<Rightarrow> andAlso (rec ak bk) (rec av bv)) t = Some (r, s') \<and> seenWithin h t s'"
        using bkv by simp
    qed
    then show "\<exists>r s'. (case x of (ak, av) \<Rightarrow> forSome (\<lambda>(bk, bv). andAlso (rec ak bk) (rec av bv)) mapB) s
        = Some (r, s') \<and> seenWithin h s s'"
      using kv by simp
  qed
  then show ?thesis using MapObj B s1 by auto
next
  case (PlainObj pa ea ha sa)
  with proto obtain eb hb sb where B: "ob = PlainObj pa eb hb sb" by (cases ob) auto
  let ?f = "\<lambda>key s. if \<not> hasProperty h ob key then Some (False, s)
              else rec (getProperty h oa key) (getProperty h ob key) s"
  have "\<exists>r s'. forEvery ?f (objectKeys oa) s1 = Some (r, s') \<and> seenWithin h s1 s'"
  proof (rule forEvery_total[OF _ s1])
    fix key s assume s: "seenWithin h s1 s"
    have ss: "seenWithin h s s" using s by (simp add: seenWithin_def)
    show "\<exists>r s'. ?f key s = Some (r, s') \<and> seenWithin h s s'"
      using rec[OF getProperty_valid[OF wf oa] getProperty_valid[OF wf ob] s] ss by auto
  qed
  then obtain r s' where "forEvery ?f (objectKeys oa) s1 = Some (r, s')" "seenWithin h s1 s'"
    by blast
  then show ?thesis unfolding PlainObj B by (cases r) auto
qed

lemma seenDom_Cons: "seenDom ((p, q) # s) = insert p (seenDom s)"
  by (simp add: seenDom_def)

lemma map_of_None_seenDom: "map_of s p = None \<longleftrightarrow> p \<notin> seenDom s"
  by (simp add: seenDom_def map_of_eq_None_iff)

text \<open>
  A call that goes past the memo test has put a new left-hand object in the memo. So a
  call whose bound exceeds the number of objects not yet in the memo returns: the
  recursion cannot go deeper than that number.
\<close>

lemma deepEqual_total:
  assumes wf: "wfHeap h"
  shows "validVal h a \<Longrightarrow> validVal h b \<Longrightarrow> seenDom seen \<subseteq> {..<length (cells h)} \<Longrightarrow>
         length (cells h) < n + card (seenDom seen) \<Longrightarrow>
         \<exists>r s'. deepEqual n h a b seen = Some (r, s') \<and> seenWithin h seen s'"
proof (induction n arbitrary: a b seen)
  case 0
  have "card (seenDom seen) \<le> card {..<length (cells h)}"
    using "0.prems"(3) by (intro card_mono) simp_all
  with "0.prems"(4) show ?case by simp
next
  case (Suc n)
  have refl: "seenWithin h seen seen" using Suc.prems(3) by (rule seenWithin_refl)
  show ?case
  proof (cases "a = b \<or> \<not> isObject a \<or> \<not> isObject b")
    case True
    then show ?thesis using refl by auto
  next
    case False
    then obtain pa pb where ab: "a = Ref pa" "b = Ref pb" and ne: "a \<noteq> b"
      by (cases a; cases b) auto
    from Suc.prems(1,2) ab have va: "pa < length (cells h)" and vb: "pb < length (cells h)"
      by simp_all
    from deref_Some[OF va] obtain oa where oa: "deref h pa = Some oa" "oa \<in> set (cells h)" by blast
    from deref_Some[OF vb] obtain ob where ob: "deref h pb = Some ob" "ob \<in> set (cells h)" by blast
    show ?thesis
    proof (cases "getPrototypeOf oa \<noteq> getPrototypeOf ob")
      case True
      then show ?thesis using ab ne oa ob refl by auto
    next
      case proto: False
      show ?thesis
      proof (cases "map_of seen pa")
        case (Some cached)
        then show ?thesis using ab ne oa ob proto refl by auto
      next
        case None
        let ?s1 = "(pa, pb) # seen"
        have notin: "pa \<notin> seenDom seen" using None by (simp add: map_of_None_seenDom)
        have dom1: "seenDom ?s1 \<subseteq> {..<length (cells h)}"
          using Suc.prems(3) va by (simp add: seenDom_Cons)
        have fin: "finite (seenDom seen)" using Suc.prems(3) finite_subset by blast
        have card1: "card (seenDom ?s1) = Suc (card (seenDom seen))"
          using notin fin by (simp add: seenDom_Cons)
        have s1: "seenWithin h ?s1 ?s1" using dom1 by (rule seenWithin_refl)
        have s01: "seenWithin h seen ?s1"
          using dom1 by (auto simp: seenWithin_def seenDom_Cons)
        have rec: "\<exists>r s'. deepEqual n h x y s = Some (r, s') \<and> seenWithin h s s'"
          if "validVal h x" "validVal h y" "seenWithin h ?s1 s" for x y s
        proof -
          have d: "seenDom s \<subseteq> {..<length (cells h)}" using that(3) by (simp add: seenWithin_def)
          have "card (seenDom ?s1) \<le> card (seenDom s)" using that(3) by (rule seenWithin_card)
          then have "length (cells h) < n + card (seenDom s)" using Suc.prems(4) card1 by simp
          from Suc.IH[OF that(1,2) d this] show ?thesis .
        qed
        have p: "getPrototypeOf oa = getPrototypeOf ob" using proto by simp
        have "\<exists>r s'. compareObjects (deepEqual n h) h oa ob ?s1 = Some (r, s')
                \<and> seenWithin h ?s1 s'"
          by (rule compareObjects_total[where rec = "deepEqual n h", OF wf oa(2) ob(2) p _ s1])
             (rule rec)
        then obtain r s' where "compareObjects (deepEqual n h) h oa ob ?s1 = Some (r, s')"
          "seenWithin h ?s1 s'" by blast
        then show ?thesis using ab ne oa ob proto None seenWithin_trans[OF s01] by auto
      qed
    qed
  qed
qed

text \<open>
  Termination: in a well-formed heap every call \<^verbatim>\<open>deepEqual(a, b)\<close> returns a boolean, whether
  the values are self-referential or not.
\<close>

lemma deepEqualCall_returns:
  assumes "wfHeap h" "validVal h a" "validVal h b"
  shows "\<exists>r. deepEqualCall h a b = Some r"
proof -
  have "\<exists>r s'. deepEqual (Suc (length (cells h))) h a b [] = Some (r, s') \<and> seenWithin h [] s'"
    by (rule deepEqual_total[OF assms]) (simp_all add: seenDom_def)
  then show ?thesis by (auto simp: deepEqualCall_def)
qed

section \<open>The comparator on trees\<close>

inductive_cases forestAt_ConsE: "forestAt h (v # vs) A"

inductive_cases sim_RefE: "sim h (Ref p) (Ref q)"



text \<open>
  A primitive on the left is compared by identity and leaves the memo as it is; so the
  search loops of the Set and Map branches decide membership when the members on the
  left are primitives.
\<close>

lemma deepEqual_prim:
  "\<not> isObject a \<Longrightarrow> deepEqual n h a b s = Some (r, s') \<Longrightarrow> r = (a = b) \<and> s' = s"
  by (cases n) (auto split: if_splits)

lemma forSome_prim:
  assumes prim: "\<And>b s r s'. rec a b s = Some (r, s') \<Longrightarrow> r = (a = b) \<and> s' = s"
  shows "forSome (rec a) ys s = Some (r, s') \<Longrightarrow> r = (a \<in> set ys) \<and> s' = s"
proof (induction ys)
  case Nil
  then show ?case by simp
next
  case (Cons y ys)
  from Cons.prems obtain r1 s1 where 1: "rec a y s = Some (r1, s1)"
    by (auto split: option.splits)
  from prim[OF 1] have 2: "r1 = (a = y)" "s1 = s" by simp_all
  show ?case
  proof (cases r1)
    case True
    with Cons.prems 1 2 show ?thesis by auto
  next
    case False
    with Cons.prems 1 2 have "forSome (rec a) ys s = Some (r, s')" by simp
    from Cons.IH[OF this] False 2 show ?thesis by auto
  qed
qed

lemma forEvery_prim:
  assumes "\<And>x s r s'. x \<in> set xs \<Longrightarrow> f x s = Some (r, s') \<Longrightarrow> r = P x \<and> s' = s"
  shows "forEvery f xs s = Some (r, s') \<Longrightarrow> r = (\<forall>x \<in> set xs. P x) \<and> s' = s"
  using assms
proof (induction xs)
  case Nil
  then show ?case by simp
next
  case (Cons x xs)
  from Cons.prems(1) obtain r1 s1 where 1: "f x s = Some (r1, s1)"
    by (auto split: option.splits)
  from Cons.prems(2)[OF _ 1] have 2: "r1 = P x" "s1 = s" by simp_all
  show ?case
  proof (cases r1)
    case False
    with Cons.prems(1) 1 2 show ?thesis by auto
  next
    case True
    with Cons.prems(1) 1 2 have "forEvery f xs s = Some (r, s')" by simp
    from Cons.IH[OF this] Cons.prems(2) True 2 show ?thesis by auto
  qed
qed

text \<open>
  A loop over the members of a left-hand forest none of whose objects is in the memo:
  if each recursive call decides similarity of a tree and adds only objects of that tree
  to the memo, the loop decides similarity of all the pairs it is given.
\<close>

lemma forEvery_forest:
  assumes IH: "\<And>a b A seen r seen'. treeAt h a A \<Longrightarrow> A \<inter> seenDom seen = {} \<Longrightarrow>
      rec a b seen = Some (r, seen') \<Longrightarrow>
      (r \<longleftrightarrow> sim h a b) \<and> seenDom seen \<subseteq> seenDom seen' \<and> seenDom seen' \<subseteq> seenDom seen \<union> A"
  shows "forestAt h (map L xs) A \<Longrightarrow> A \<inter> seenDom seen = {} \<Longrightarrow>
    forEvery (\<lambda>x s. if \<not> c x then Some (False, s) else rec (L x) (R x) s) xs seen = Some (r, seen') \<Longrightarrow>
    (r \<longleftrightarrow> (\<forall>x \<in> set xs. c x \<and> sim h (L x) (R x)))
    \<and> seenDom seen \<subseteq> seenDom seen' \<and> seenDom seen' \<subseteq> seenDom seen \<union> A"
proof (induction xs arbitrary: A seen)
  case Nil
  then show ?case by simp
next
  case (Cons x xs)
  from Cons.prems(1) obtain A1 A2 where A: "A = A1 \<union> A2" and t1: "treeAt h (L x) A1"
    and f2: "forestAt h (map L xs) A2" and dis: "A1 \<inter> A2 = {}"
    by (auto elim: forestAt_ConsE)
  show ?case
  proof (cases "c x")
    case False
    with Cons.prems(3) show ?thesis by auto
  next
    case True
    with Cons.prems(3) obtain r1 s1 where 1: "rec (L x) (R x) seen = Some (r1, s1)"
      by (auto split: option.splits)
    have d1: "A1 \<inter> seenDom seen = {}" using Cons.prems(2) A by blast
    from IH[OF t1 d1 1] have r1: "r1 \<longleftrightarrow> sim h (L x) (R x)"
      and g1: "seenDom seen \<subseteq> seenDom s1" and s1: "seenDom s1 \<subseteq> seenDom seen \<union> A1" by simp_all
    show ?thesis
    proof (cases r1)
      case False
      with Cons.prems(3) True 1 r1 g1 s1 A show ?thesis by auto
    next
      case r1T: True
      with Cons.prems(3) True 1
      have 2: "forEvery (\<lambda>x s. if \<not> c x then Some (False, s) else rec (L x) (R x) s) xs s1 = Some (r, seen')"
        by simp
      have d2: "A2 \<inter> seenDom s1 = {}" using Cons.prems(2) A dis s1 by blast
      from Cons.IH[OF f2 d2 2] r1 r1T True g1 s1 A show ?thesis by auto
    qed
  qed
qed

lemma deref_mem: "deref h p = Some ob \<Longrightarrow> ob \<in> set (cells h) \<and> p < length (cells h)"
  by (auto simp: deref_def split: if_splits)

lemma sim_arrays_iff:
  "deref h p = Some (ArrayObj c xs) \<Longrightarrow> deref h q = Some (ArrayObj c xs') \<Longrightarrow> p \<noteq> q \<Longrightarrow>
   sim h (Ref p) (Ref q) \<longleftrightarrow> list_all2 (sim h) xs xs'"
  by (auto elim: sim_RefE intro: sim.arrays)

lemma sim_dates_iff:
  "deref h p = Some (DateObj c t) \<Longrightarrow> deref h q = Some (DateObj c u) \<Longrightarrow> p \<noteq> q \<Longrightarrow>
   sim h (Ref p) (Ref q) \<longleftrightarrow> strictEqNum t u"
  by (auto elim: sim_RefE intro: sim.dates)

lemma sim_regexps_iff:
  "deref h p = Some (RegExpObj c s f) \<Longrightarrow> deref h q = Some (RegExpObj c s' f') \<Longrightarrow> p \<noteq> q \<Longrightarrow>
   sim h (Ref p) (Ref q) \<longleftrightarrow> s = s' \<and> f = f'"
  by (auto elim: sim_RefE intro: sim.regexps)

lemma sim_sets_iff:
  "deref h p = Some (SetObj c xs) \<Longrightarrow> deref h q = Some (SetObj c ys) \<Longrightarrow> p \<noteq> q \<Longrightarrow>
   sim h (Ref p) (Ref q) \<longleftrightarrow> length xs = length ys \<and> set xs = set ys"
  by (auto elim: sim_RefE intro: sim.sets)

lemma sim_maps_iff:
  "deref h p = Some (MapObj c xs) \<Longrightarrow> deref h q = Some (MapObj c ys) \<Longrightarrow> p \<noteq> q \<Longrightarrow>
   sim h (Ref p) (Ref q) \<longleftrightarrow> length xs = length ys \<and> set xs = set ys"
  by (auto elim: sim_RefE intro: sim.maps)

lemma sim_plains_iff:
  "deref h p = Some (PlainObj c en hid sy) \<Longrightarrow> deref h q = Some (PlainObj c en' hid' sy') \<Longrightarrow>
   p \<noteq> q \<Longrightarrow>
   sim h (Ref p) (Ref q) \<longleftrightarrow>
     set (map fst en) = set (map fst en')
     \<and> (\<forall>k v v'. map_of en k = Some v \<longrightarrow> map_of en' k = Some v' \<longrightarrow> sim h v v')"
proof
  assume d: "deref h p = Some (PlainObj c en hid sy)" "deref h q = Some (PlainObj c en' hid' sy')"
    and ne: "p \<noteq> q" and s: "sim h (Ref p) (Ref q)"
  from s show "set (map fst en) = set (map fst en')
     \<and> (\<forall>k v v'. map_of en k = Some v \<longrightarrow> map_of en' k = Some v' \<longrightarrow> sim h v v')"
  proof (cases rule: sim.cases)
    case (plains c1 en1 hid1 sy1 en1' hid1' sy1')
    from plains d(1) have "en1 = en" by simp
    moreover from plains d(2) have "en1' = en'" by simp
    ultimately show ?thesis using plains by blast
  qed (use d ne in auto)
next
  assume d: "deref h p = Some (PlainObj c en hid sy)" "deref h q = Some (PlainObj c en' hid' sy')"
    and "set (map fst en) = set (map fst en')
     \<and> (\<forall>k v v'. map_of en k = Some v \<longrightarrow> map_of en' k = Some v' \<longrightarrow> sim h v v')"
  then show "sim h (Ref p) (Ref q)" by (intro sim.plains[OF d]) simp_all
qed

lemma getProperty_own:
  "map_of en k = Some v \<Longrightarrow> getProperty h (PlainObj p en hid sy) k = v"
  by simp

lemma map_getProperty:
  "distinct (map fst en) \<Longrightarrow>
   map (getProperty h (PlainObj p en hid sy)) (map fst en) = map snd en"
proof -
  assume d: "distinct (map fst en)"
  have "getProperty h (PlainObj p en hid sy) (fst x) = snd x" if "x \<in> set en" for x
  proof -
    from that have "map_of en (fst x) = Some (snd x)"
      using d map_of_eq_Some_iff[of en "fst x" "snd x"] by simp
    then show ?thesis by simp
  qed
  then show ?thesis by simp
qed

lemma hasProperty_own:
  assumes "noShadowing h" "oa \<in> set (cells h)" "PlainObj p en hid sy \<in> set (cells h)"
    and "k \<in> set (objectKeys oa)"
  shows "hasProperty h (PlainObj p en hid sy) k \<longleftrightarrow> k \<in> set (map fst en)"
proof -
  from assms have "k \<notin> set (hiddenKeys h (PlainObj p en hid sy))"
    unfolding noShadowing_def by blast
  then show ?thesis by auto
qed

lemma subset_same_length:
  assumes "distinct xs" "distinct ys" "length xs = length ys" "set xs \<subseteq> set ys"
  shows "set xs = set ys"
proof -
  have "card (set xs) = card (set ys)" using assms(1-3) by (simp add: distinct_card)
  with assms(4) show ?thesis by (simp add: card_subset_eq)
qed

text \<open>
  The branches decide similarity when the left-hand object is the root of a tree that
  the memo has not met: the memo test never succeeds inside the tree.
\<close>

lemma compareObjects_tree:
  assumes IH: "\<And>a b A seen r seen'. treeAt h a A \<Longrightarrow> A \<inter> seenDom seen = {} \<Longrightarrow>
      rec a b seen = Some (r, seen') \<Longrightarrow>
      (r \<longleftrightarrow> sim h a b) \<and> seenDom seen \<subseteq> seenDom seen' \<and> seenDom seen' \<subseteq> seenDom seen \<union> A"
    and prim: "\<And>a b s r s'. \<not> isObject a \<Longrightarrow> rec a b s = Some (r, s') \<Longrightarrow> r = (a = b) \<and> s' = s"
    and wf: "wfHeap h" and ns: "noShadowing h"
    and t: "treeAt h (Ref pa) A" and da: "deref h pa = Some oa" and db: "deref h pb = Some ob"
    and proto: "getPrototypeOf oa = getPrototypeOf ob" and ne: "pa \<noteq> pb"
    and dis: "A \<inter> seenDom seen = {}"
    and res: "compareObjects rec h oa ob ((pa, pb) # seen) = Some (r, seen')"
  shows "(r \<longleftrightarrow> sim h (Ref pa) (Ref pb))
         \<and> seenDom seen \<subseteq> seenDom seen' \<and> seenDom seen' \<subseteq> seenDom seen \<union> A"
proof -
  let ?s1 = "(pa, pb) # seen"
  have ma: "oa \<in> set (cells h)" and mb: "ob \<in> set (cells h)"
    using deref_mem[OF da] deref_mem[OF db] by simp_all
  have dka: "distinctKeys oa" and dkb: "distinctKeys ob"
    using wf ma mb by (simp_all add: wfHeap_def)
  have paA: "pa \<in> A" using t by (cases rule: treeAt.cases) auto
  have stay: "seenDom seen \<subseteq> seenDom ?s1 \<and> seenDom ?s1 \<subseteq> seenDom seen \<union> A"
    using paA by (auto simp: seenDom_Cons)
  show ?thesis
  proof (cases oa)
    case (ArrayObj c arrA)
    with proto obtain arrB where B: "ob = ArrayObj c arrB" by (cases ob) auto
    from t da ArrayObj obtain A' where A': "A = insert pa A'" "forestAt h arrA A'" "pa \<notin> A'"
      by (cases rule: treeAt.cases) auto
    have simiff: "sim h (Ref pa) (Ref pb) \<longleftrightarrow> list_all2 (sim h) arrA arrB"
      using sim_arrays_iff[OF _ _ ne] da db ArrayObj B by simp
    show ?thesis
    proof (cases "length arrA = length arrB")
      case False
      then have "\<not> list_all2 (sim h) arrA arrB" by (auto dest: list_all2_lengthD)
      with False res ArrayObj B simiff stay show ?thesis by auto
    next
      case True
      let ?f = "\<lambda>x s. if \<not> (\<lambda>_. True) x then Some (False, s) else rec (fst x) (snd x) s"
      have feq: "?f = (\<lambda>(x, y). rec x y)"
        by (rule ext)+ (simp add: case_prod_beta)
      have res': "forEvery (\<lambda>(x, y). rec x y) (zip arrA arrB) ?s1 = Some (r, seen')"
        using res ArrayObj B True by simp
      have loop: "forEvery ?f (zip arrA arrB) ?s1 = Some (r, seen')"
        by (subst feq) (rule res')
      have forest: "forestAt h (map fst (zip arrA arrB)) A'" using A'(2) True by simp
      have d1: "A' \<inter> seenDom ?s1 = {}" using dis A' by (auto simp: seenDom_Cons)
      have X: "(r \<longleftrightarrow> (\<forall>x \<in> set (zip arrA arrB). True \<and> sim h (fst x) (snd x)))
          \<and> seenDom ?s1 \<subseteq> seenDom seen' \<and> seenDom seen' \<subseteq> seenDom ?s1 \<union> A'"
        by (rule forEvery_forest[where rec = rec and c = "\<lambda>_. True" and L = fst and R = snd,
              OF _ forest d1 loop]) (rule IH; assumption)
      have "r \<longleftrightarrow> (\<forall>x \<in> set (zip arrA arrB). sim h (fst x) (snd x))"
        using X[THEN conjunct1] by blast
      moreover have "list_all2 (sim h) arrA arrB
          \<longleftrightarrow> (\<forall>x \<in> set (zip arrA arrB). sim h (fst x) (snd x))"
        using True by (simp add: list_all2_iff case_prod_unfold)
      ultimately have rr: "r \<longleftrightarrow> sim h (Ref pa) (Ref pb)" using simiff by blast
      have g1: "seenDom ?s1 \<subseteq> seenDom seen'" using X[THEN conjunct2, THEN conjunct1] .
      have g2: "seenDom seen' \<subseteq> seenDom ?s1 \<union> A'" using X[THEN conjunct2, THEN conjunct2] .
      have "seenDom seen \<subseteq> seenDom seen'" using g1 unfolding seenDom_Cons by blast
      moreover have "seenDom seen' \<subseteq> seenDom seen \<union> A"
        using g2 A'(1) unfolding seenDom_Cons by blast
      ultimately show ?thesis using rr by blast
    qed
  next
    case (DateObj c ta)
    with proto obtain tb where B: "ob = DateObj c tb" by (cases ob) auto
    have "sim h (Ref pa) (Ref pb) \<longleftrightarrow> strictEqNum ta tb"
      using sim_dates_iff[OF _ _ ne] da db DateObj B by simp
    with res DateObj B stay show ?thesis by auto
  next
    case (RegExpObj c sa fa)
    with proto obtain sb fb where B: "ob = RegExpObj c sb fb" by (cases ob) auto
    have "sim h (Ref pa) (Ref pb) \<longleftrightarrow> sa = sb \<and> fa = fb"
      using sim_regexps_iff[OF _ _ ne] da db RegExpObj B by simp
    with res RegExpObj B stay show ?thesis by auto
  next
    case (SetObj c setA)
    with proto obtain setB where B: "ob = SetObj c setB" by (cases ob) auto
    from t da SetObj have flat: "\<forall>x \<in> set setA. \<not> isObject x"
      by (cases rule: treeAt.cases) auto
    have simiff: "sim h (Ref pa) (Ref pb) \<longleftrightarrow> length setA = length setB \<and> set setA = set setB"
      using sim_sets_iff[OF _ _ ne] da db SetObj B by simp
    show ?thesis
    proof (cases "length setA = length setB")
      case False
      with res SetObj B simiff stay show ?thesis by auto
    next
      case True
      have loop: "forEvery (\<lambda>av. forSome (rec av) setB) setA ?s1 = Some (r, seen')"
        using res SetObj B True by simp
      have "r = (\<forall>x \<in> set setA. x \<in> set setB) \<and> seen' = ?s1"
      proof (rule forEvery_prim[OF _ loop])
        fix x s r0 s0 assume x: "x \<in> set setA" and "forSome (rec x) setB s = Some (r0, s0)"
        then show "r0 = (x \<in> set setB) \<and> s0 = s"
          using forSome_prim[of rec x setB s r0 s0] prim flat by blast
      qed
      then have r: "r \<longleftrightarrow> set setA \<subseteq> set setB" and s: "seen' = ?s1" by auto
      have "set setA \<subseteq> set setB \<longleftrightarrow> set setA = set setB"
        using subset_same_length[of setA setB] dka dkb SetObj B True by auto
      with r s simiff True stay show ?thesis by simp
    qed
  next
    case (MapObj c mapA)
    with proto obtain mapB where B: "ob = MapObj c mapB" by (cases ob) auto
    from t da MapObj have flat: "\<forall>x \<in> set mapA. \<not> isObject (fst x) \<and> \<not> isObject (snd x)"
      by (cases rule: treeAt.cases) auto
    have simiff: "sim h (Ref pa) (Ref pb) \<longleftrightarrow> length mapA = length mapB \<and> set mapA = set mapB"
      using sim_maps_iff[OF _ _ ne] da db MapObj B by simp
    show ?thesis
    proof (cases "length mapA = length mapB")
      case False
      with res MapObj B simiff stay show ?thesis by auto
    next
      case True
      let ?g = "\<lambda>x y. andAlso (rec (fst x) (fst y)) (rec (snd x) (snd y))"
      have geq: "(\<lambda>(ak, av). forSome (\<lambda>(bk, bv). andAlso (rec ak bk) (rec av bv)) mapB)
                 = (\<lambda>x. forSome (?g x) mapB)"
        by (simp add: case_prod_unfold)
      have res': "forEvery (\<lambda>(ak, av). forSome (\<lambda>(bk, bv). andAlso (rec ak bk) (rec av bv)) mapB)
                    mapA ?s1 = Some (r, seen')"
        using res MapObj B True by simp
      have loop: "forEvery (\<lambda>x. forSome (?g x) mapB) mapA ?s1 = Some (r, seen')"
        using res' unfolding geq .
      have pair: "r0 = (x = y) \<and> s0 = s"
        if "x \<in> set mapA" "?g x y s = Some (r0, s0)" for x y s r0 s0
      proof -
        from that(1) flat have fx: "\<not> isObject (fst x)" "\<not> isObject (snd x)" by auto
        from that(2) obtain r1 s1 where 1: "rec (fst x) (fst y) s = Some (r1, s1)"
          by (auto simp: andAlso_def split: option.splits)
        from prim[OF fx(1) 1] have k: "r1 = (fst x = fst y)" "s1 = s" by simp_all
        show ?thesis
        proof (cases r1)
          case False
          with that(2) 1 k show ?thesis by (auto simp: andAlso_def)
        next
          case True
          with that(2) 1 k have 2: "rec (snd x) (snd y) s = Some (r0, s0)"
            by (simp add: andAlso_def)
          from prim[OF fx(2) 2] True k show ?thesis by (auto simp: prod_eq_iff)
        qed
      qed
      have "r = (\<forall>x \<in> set mapA. x \<in> set mapB) \<and> seen' = ?s1"
      proof (rule forEvery_prim[OF _ loop])
        fix x s r0 s0 assume x: "x \<in> set mapA" and f: "forSome (?g x) mapB s = Some (r0, s0)"
        show "r0 = (x \<in> set mapB) \<and> s0 = s"
          by (rule forSome_prim[of ?g x mapB s r0 s0, OF _ f]) (rule pair[OF x])
      qed
      then have r: "r \<longleftrightarrow> set mapA \<subseteq> set mapB" and s: "seen' = ?s1" by auto
      have da': "distinct mapA" and db': "distinct mapB"
        using dka dkb MapObj B by (auto simp: distinct_map)
      have "set mapA \<subseteq> set mapB \<longleftrightarrow> set mapA = set mapB"
        using subset_same_length[OF da' db' True] by auto
      with r s simiff True stay show ?thesis by simp
    qed
  next
    case (PlainObj c ea ha sa)
    with proto obtain eb hb sb where B: "ob = PlainObj c eb hb sb" by (cases ob) auto
    from t da PlainObj obtain A' where A': "A = insert pa A'" "forestAt h (map snd ea) A'" "pa \<notin> A'"
      by (cases rule: treeAt.cases) auto
    have dea: "distinct (map fst ea)" and deb: "distinct (map fst eb)"
      using dka dkb PlainObj B by simp_all
    have simiff: "sim h (Ref pa) (Ref pb) \<longleftrightarrow>
        set (map fst ea) = set (map fst eb)
        \<and> (\<forall>k v v'. map_of ea k = Some v \<longrightarrow> map_of eb k = Some v' \<longrightarrow> sim h v v')"
      using sim_plains_iff[OF _ _ ne] da db PlainObj B by simp
    let ?f = "\<lambda>key s. if \<not> hasProperty h ob key then Some (False, s)
                else rec (getProperty h oa key) (getProperty h ob key) s"
    from res PlainObj B obtain r1 where
      loop: "forEvery ?f (map fst ea) ?s1 = Some (r1, seen')"
      and r: "r = (r1 \<and> length ea = length eb)"
      by (auto split: option.splits if_splits)
    have forest: "forestAt h (map (getProperty h oa) (map fst ea)) A'"
      unfolding PlainObj map_getProperty[OF dea] by (rule A'(2))
    have d1: "A' \<inter> seenDom ?s1 = {}" using dis A' by (auto simp: seenDom_Cons)
    have X: "(r1 \<longleftrightarrow> (\<forall>k \<in> set (map fst ea). hasProperty h ob k
                 \<and> sim h (getProperty h oa k) (getProperty h ob k)))
          \<and> seenDom ?s1 \<subseteq> seenDom seen' \<and> seenDom seen' \<subseteq> seenDom ?s1 \<union> A'"
      by (rule forEvery_forest[where rec = rec and c = "hasProperty h ob"
            and L = "getProperty h oa" and R = "getProperty h ob", OF _ forest d1 loop])
         (rule IH; assumption)
    have r1: "r1 \<longleftrightarrow> (\<forall>k \<in> set (map fst ea). hasProperty h ob k
                 \<and> sim h (getProperty h oa k) (getProperty h ob k))"
      using X[THEN conjunct1] .
    have g: "seenDom ?s1 \<subseteq> seenDom seen'" "seenDom seen' \<subseteq> seenDom ?s1 \<union> A'"
      using X[THEN conjunct2, THEN conjunct1] X[THEN conjunct2, THEN conjunct2] .
    have has: "hasProperty h ob k \<longleftrightarrow> k \<in> set (map fst eb)" if "k \<in> set (map fst ea)" for k
      using hasProperty_own[OF ns ma, of c eb hb sb k] mb B that PlainObj by simp
    have "r \<longleftrightarrow> sim h (Ref pa) (Ref pb)"
    proof
      assume r
      with r r1 have len: "length ea = length eb"
        and all: "\<forall>k \<in> set (map fst ea). hasProperty h ob k
                 \<and> sim h (getProperty h oa k) (getProperty h ob k)" by simp_all
      have sub: "set (map fst ea) \<subseteq> set (map fst eb)" using all has by blast
      have keys: "set (map fst ea) = set (map fst eb)"
        using subset_same_length[OF dea deb _ sub] len by simp
      have "sim h v v'" if "map_of ea k = Some v" "map_of eb k = Some v'" for k v v'
      proof -
        from that(1) have "(k, v) \<in> set ea" by (rule map_of_SomeD)
        then have "k \<in> set (map fst ea)" by force
        with all have "sim h (getProperty h oa k) (getProperty h ob k)" by blast
        then show ?thesis using that PlainObj B by simp
      qed
      with keys simiff show "sim h (Ref pa) (Ref pb)" by blast
    next
      assume "sim h (Ref pa) (Ref pb)"
      with simiff have keys: "set (map fst ea) = set (map fst eb)"
        and mem: "\<forall>k v v'. map_of ea k = Some v \<longrightarrow> map_of eb k = Some v' \<longrightarrow> sim h v v'"
        by simp_all
      have len: "length ea = length eb"
        using keys dea deb distinct_card[of "map fst ea"] distinct_card[of "map fst eb"] by simp
      have "hasProperty h ob k \<and> sim h (getProperty h oa k) (getProperty h ob k)"
        if k: "k \<in> set (map fst ea)" for k
      proof -
        from k obtain v where v: "map_of ea k = Some v"
          by (metis map_of_eq_None_iff not_None_eq set_map)
        from k keys have "k \<in> set (map fst eb)" by simp
        then obtain v' where v': "map_of eb k = Some v'"
          by (metis map_of_eq_None_iff not_None_eq set_map)
        from mem v v' have "sim h v v'" by blast
        then show ?thesis using has[OF k] k keys v v' PlainObj B by simp
      qed
      with r r1 len show r by blast
    qed
    with g A' show ?thesis by (auto simp: seenDom_Cons)
  qed
qed

lemma deepEqual_tree:
  assumes wf: "wfHeap h" and ns: "noShadowing h"
  shows "treeAt h a A \<Longrightarrow> A \<inter> seenDom seen = {} \<Longrightarrow> deepEqual n h a b seen = Some (r, seen') \<Longrightarrow>
         (r \<longleftrightarrow> sim h a b) \<and> seenDom seen \<subseteq> seenDom seen' \<and> seenDom seen' \<subseteq> seenDom seen \<union> A"
proof (induction n arbitrary: a b A seen r seen')
  case 0
  then show ?case by simp
next
  case (Suc n)
  show ?case
  proof (cases "a = b")
    case True
    with Suc.prems(3) show ?thesis by (auto intro: sim.same)
  next
    case ne: False
    show ?thesis
    proof (cases "isObject a \<and> isObject b")
      case False
      then have "\<not> sim h a b" using ne by (auto elim: sim.cases)
      with Suc.prems(3) ne False show ?thesis by auto
    next
      case True
      then obtain pa pb where ab: "a = Ref pa" "b = Ref pb" by (cases a; cases b) auto
      with ne have pne: "pa \<noteq> pb" by simp
      from Suc.prems(3) ab ne obtain oa ob where da: "deref h pa = Some oa"
        and db: "deref h pb = Some ob"
        by (auto split: option.splits)
      have paA: "pa \<in> A" using Suc.prems(1) ab by (cases rule: treeAt.cases) auto
      then have notseen: "map_of seen pa = None"
        using Suc.prems(2) by (auto simp: map_of_None_seenDom)
      show ?thesis
      proof (cases "getPrototypeOf oa = getPrototypeOf ob")
        case False
        have "\<not> sim h (Ref pa) (Ref pb)"
        proof
          assume "sim h (Ref pa) (Ref pb)"
          then show False using pne da db False by (cases rule: sim.cases) auto
        qed
        with Suc.prems(3) ab ne da db False show ?thesis by auto
      next
        case proto: True
        have res: "compareObjects (deepEqual n h) h oa ob ((pa, pb) # seen) = Some (r, seen')"
          using Suc.prems(3) ab ne da db proto notseen by simp
        have t: "treeAt h (Ref pa) A" using Suc.prems(1) ab by simp
        show ?thesis unfolding ab
          by (rule compareObjects_tree[where rec = "deepEqual n h", OF Suc.IH deepEqual_prim wf ns t da db proto pne Suc.prems(2) res])
      qed
    qed
  qed
qed

lemma validVal_prim: "\<not> isObject v \<Longrightarrow> validVal h v"
  by (cases v) simp_all

lemma treeAt_valid: "treeAt h v A \<Longrightarrow> validVal h v"
  by (cases rule: treeAt.cases) (auto dest: deref_mem simp: validVal_prim)

lemma forestAt_mem: "forestAt h vs A \<Longrightarrow> v \<in> set vs \<Longrightarrow> \<exists>A'. treeAt h v A'"
proof (induction vs arbitrary: A)
  case Nil
  then show ?case by simp
next
  case (Cons x xs)
  from Cons.prems(1) obtain A1 A2 where "treeAt h x A1" "forestAt h xs A2"
    by (auto elim: forestAt_ConsE)
  with Cons.IH Cons.prems(2) show ?case by auto
qed

text \<open>On a tree, \<^verbatim>\<open>deepEqual(a, b)\<close> returns whether \<^verbatim>\<open>a\<close> and \<^verbatim>\<open>b\<close> are structurally similar.\<close>

lemma deepEqualCall_tree:
  assumes wf: "wfHeap h" and ns: "noShadowing h" and t: "treeAt h a A" and vb: "validVal h b"
  shows "deepEqualCall h a b = Some (sim h a b)"
proof -
  have "\<exists>r s'. deepEqual (Suc (length (cells h))) h a b [] = Some (r, s') \<and> seenWithin h [] s'"
    by (rule deepEqual_total[OF wf treeAt_valid[OF t] vb]) (simp_all add: seenDom_def)
  then obtain r s' where res: "deepEqual (Suc (length (cells h))) h a b [] = Some (r, s')"
    by blast
  have "A \<inter> seenDom [] = {}" by (simp add: seenDom_def)
  from deepEqual_tree[OF wf ns t this res] have "r \<longleftrightarrow> sim h a b" by simp
  with res show ?thesis by (simp add: deepEqualCall_def)
qed

text \<open>The example of two records that differ in the order of their keys.\<close>

lemma wf_treeHeap: "wfHeap treeHeap"
  by (simp add: wfHeap_def treeHeap_def one_def two_def objectProto_def)

lemma ns_treeHeap: "noShadowing treeHeap"
  by (simp add: noShadowing_def treeHeap_def objectProto_def)

lemma deref_treeHeap:
  "deref treeHeap 0 = Some (PlainObj 0 [(''a'', Ref 1), (''b'', Ref 2), (''n'', one)] [] [(0, one)])"
  "deref treeHeap 1 = Some (ArrayObj 0 [one, two])"
  "deref treeHeap 2 = Some (DateObj 0 (Fin 5))"
  "deref treeHeap 3 = Some (PlainObj 0 [(''n'', one), (''b'', Ref 5), (''a'', Ref 4)] [] [])"
  "deref treeHeap 4 = Some (ArrayObj 0 [one, two])"
  "deref treeHeap 5 = Some (DateObj 0 (Fin 5))"
  by (simp_all add: deref_def treeHeap_def)

lemma prims: "treeAt h one {}" "treeAt h two {}"
  by (simp_all add: treeAt_forestAt.leaf one_def two_def)

lemma forest_prims: "forestAt h [one, two] ({} \<union> ({} \<union> {}))"
  by (intro treeAt_forestAt.cons treeAt_forestAt.nil prims) simp_all

lemma tree_1: "treeAt treeHeap (Ref 1) {1}"
  using treeAt_forestAt.array[OF deref_treeHeap(2) forest_prims] by simp


lemma tree_0: "treeAt treeHeap (Ref 0) {0, 1, 2}"
proof -
  have "forestAt treeHeap [Ref 1, Ref 2, one] ({1} \<union> ({2} \<union> ({} \<union> {})))"
    by (intro treeAt_forestAt.cons treeAt_forestAt.nil prims tree_1
          treeAt_forestAt.date[OF deref_treeHeap(3)]) simp_all
  then have "forestAt treeHeap (map snd [(''a'', Ref 1), (''b'', Ref 2), (''n'', one)]) {1, 2}"
    by (simp add: insert_commute)
  from treeAt_forestAt.plain[OF deref_treeHeap(1) this] show ?thesis by simp
qed





text \<open>
  Plain keyed records whose keys shadow nothing. In a well-formed heap where no own
  enumerable key of a record names a non-enumerable or inherited property, for two distinct
  plain records \<^verbatim>\<open>a\<close> and \<^verbatim>\<open>b\<close> of the same prototype, \<^verbatim>\<open>a\<close> being a tree (so that the memo is
  never hit), \<^verbatim>\<open>deepEqual(a, b)\<close> returns true if and only if \<^verbatim>\<open>a\<close> and \<^verbatim>\<open>b\<close> have the same set of
  own enumerable string keys and \<^verbatim>\<open>deepEqual(a[k], b[k])\<close> returns true for each such key. The
  symbol-keyed members and the order of the keys do not occur in the condition.
\<close>

lemma plain_records_equal_iff:
  assumes wf: "wfHeap h" and ns: "noShadowing h"
    and t: "treeAt h (Ref p) A"
    and da: "deref h p = Some (PlainObj c en hid sy)"
    and db: "deref h q = Some (PlainObj c en' hid' sy')"
    and ne: "p \<noteq> q"
  shows "deepEqualCall h (Ref p) (Ref q) =
           Some (set (map fst en) = set (map fst en')
                 \<and> (\<forall>k \<in> set (map fst en).
                       deepEqualCall h (getProperty h (PlainObj c en hid sy) k)
                                       (getProperty h (PlainObj c en' hid' sy') k) = Some True))"
proof -
  let ?oa = "PlainObj c en hid sy" and ?ob = "PlainObj c en' hid' sy'"
  have vq: "validVal h (Ref q)" using deref_mem[OF db] by simp
  have top: "deepEqualCall h (Ref p) (Ref q) = Some (sim h (Ref p) (Ref q))"
    by (rule deepEqualCall_tree[OF wf ns t vq])
  from t da obtain A' where forest: "forestAt h (map snd en) A'"
    by (cases rule: treeAt.cases) auto
  have mb: "?ob \<in> set (cells h)" using deref_mem[OF db] by simp
  have member: "deepEqualCall h v (getProperty h ?ob k) = Some (sim h v (getProperty h ?ob k))"
    if "map_of en k = Some v" for k v
  proof -
    from that have "v \<in> set (map snd en)" by (auto dest!: map_of_SomeD simp: image_iff) force
    from forestAt_mem[OF forest this] obtain A1 where "treeAt h v A1" by blast
    from deepEqualCall_tree[OF wf ns this getProperty_valid[OF wf mb]] show ?thesis .
  qed
  have "sim h (Ref p) (Ref q) \<longleftrightarrow>
        set (map fst en) = set (map fst en')
        \<and> (\<forall>k \<in> set (map fst en). deepEqualCall h (getProperty h ?oa k) (getProperty h ?ob k) = Some True)"
    (is "?L \<longleftrightarrow> ?K \<and> ?M")
  proof
    assume ?L
    with sim_plains_iff[OF da db ne] have keys: ?K
      and mem: "\<forall>k v v'. map_of en k = Some v \<longrightarrow> map_of en' k = Some v' \<longrightarrow> sim h v v'"
      by simp_all
    have "deepEqualCall h (getProperty h ?oa k) (getProperty h ?ob k) = Some True"
      if k: "k \<in> set (map fst en)" for k
    proof -
      from k obtain v where v: "map_of en k = Some v"
        by (metis map_of_eq_None_iff not_None_eq set_map)
      from k keys have "k \<in> set (map fst en')" by simp
      then obtain v' where v': "map_of en' k = Some v'"
        by (metis map_of_eq_None_iff not_None_eq set_map)
      from mem v v' have "sim h v v'" by blast
      with member[OF v] v v' show ?thesis by simp
    qed
    with keys show "?K \<and> ?M" by blast
  next
    assume km: "?K \<and> ?M"
    have "sim h v v'" if v: "map_of en k = Some v" and v': "map_of en' k = Some v'" for k v v'
    proof -
      from v have "(k, v) \<in> set en" by (rule map_of_SomeD)
      then have "k \<in> set (map fst en)" by force
      with km have "deepEqualCall h (getProperty h ?oa k) (getProperty h ?ob k) = Some True"
        by blast
      with member[OF v] v v' show ?thesis by simp
    qed
    with km sim_plains_iff[OF da db ne] show ?L by blast
  qed
  with top show ?thesis by simp
qed

lemma plain_records_equal_treeHeap:
  "deepEqualCall treeHeap (Ref 0) (Ref 3) = Some True"
proof -
  have ne: "(0::nat) \<noteq> 3" by simp
  have m: "deepEqualCall treeHeap (Ref 1) (Ref 4) = Some True"
    "deepEqualCall treeHeap (Ref 2) (Ref 5) = Some True"
    "deepEqualCall treeHeap one one = Some True"
    by (simp_all add: deepEqualCall_def treeHeap_def deref_def one_def two_def)
  from plain_records_equal_iff[OF wf_treeHeap ns_treeHeap tree_0 deref_treeHeap(1)
      deref_treeHeap(4) ne] m
  show ?thesis by (simp add: insert_commute)
qed

text \<open>
  A memo hit between members: \<^verbatim>\<open>{x: o, y: o}\<close> and \<^verbatim>\<open>{x: {}, y: {}}\<close> have the same keys and
  \<^verbatim>\<open>deepEqual\<close>, called on the two members under each key, returns true, but the records are
  judged different: within one comparison the memo pairs \<^verbatim>\<open>o\<close> with one partner only.
\<close>

lemma shared_member_memo_hit:
  "deepEqualCall sharedRecordHeap (Ref 0) (Ref 1) = Some False
   \<and> deref sharedRecordHeap 0 = Some (PlainObj 0 [(''x'', Ref 2), (''y'', Ref 2)] [] [])
   \<and> deref sharedRecordHeap 1 = Some (PlainObj 0 [(''x'', Ref 3), (''y'', Ref 4)] [] [])
   \<and> deepEqualCall sharedRecordHeap (Ref 2) (Ref 3) = Some True
   \<and> deepEqualCall sharedRecordHeap (Ref 2) (Ref 4) = Some True"
  by code_simp

text \<open>
  Claim C3 (plain keyed records: equal if and only if the sets of own enumerable string
  keys are the same and the members under each key are equal). The code does not do this
  at \<^verbatim>\<open>deepEqual({constructor: Object, x: 1}, {x: 1, y: 2})\<close>. The two records are distinct
  plain objects of the same prototype, their members are numbers and a function, so the
  memo is never hit, and their sets of own enumerable string keys differ:
  \<^verbatim>\<open>constructor\<close> is not a key of the second. The call returns true. The loop over the keys of
  the first record tests \<^verbatim>\<open>key in objB\<close>, which is true of the \<^verbatim>\<open>constructor\<close> that the second
  record inherits, and \<^verbatim>\<open>objB[key]\<close> reads that inherited function, the same as the member of
  the first record; after the loop only the numbers of keys are compared, two and two.
\<close>

theorem plain_records_inherited_key_judged_equal:
  "deref inheritedHeap 0 = Some (PlainObj 0 [(''constructor'', Func 0), (''x'', one)] [] [])
   \<and> deref inheritedHeap 1 = Some (PlainObj 0 [(''x'', one), (''y'', two)] [] [])
   \<and> set (objectKeys (PlainObj 0 [(''constructor'', Func 0), (''x'', one)] [] []))
       \<noteq> set (objectKeys (PlainObj 0 [(''x'', one), (''y'', two)] [] []))
   \<and> ''constructor'' \<notin> set (objectKeys (PlainObj 0 [(''x'', one), (''y'', two)] [] []))
   \<and> hasProperty inheritedHeap (PlainObj 0 [(''x'', one), (''y'', two)] [] []) ''constructor''
   \<and> deepEqualCall inheritedHeap (Ref 0) (Ref 1) = Some True"
  by code_simp

text \<open>
  Claim C8 (cycle safety). The comparison always returns: \<open>deepEqualCall_returns\<close> above.
  Two self-referential records are compared as the claim says (\<open>cyclicHeap\<close>). But the claim
  fails on the code for self-referential values that hold a Set of two objects: the two
  values of \<open>cyclicSetHeap\<close> are built by the same construction and are judged different
  (so are their two sets alone), and the two values of \<open>falsePositiveHeap\<close> do not match
  and are judged equal. In the Set branch a member compared with a first candidate stays
  paired with it in the memo when that comparison fails, so that every later candidate
  is rejected, and a pair recorded by a failed comparison is later taken as equal.
\<close>

theorem cyclic_set_compared_unequal:
  "deepEqualCall cyclicHeap (Ref 0) (Ref 1) = Some True
   \<and> deepEqualCall cyclicHeap (Ref 0) (Ref 2) = Some False
   \<and> deepEqualCall cyclicSetHeap (Ref 0) (Ref 1) = Some False
   \<and> deepEqualCall cyclicSetHeap (Ref 2) (Ref 3) = Some False
   \<and> deepEqualCall falsePositiveHeap (Ref 0) (Ref 1) = Some True"
  by code_simp

section \<open>The middleware pipeline installed by createStore\<close>

lemma runProg_passThrough: "runProg d (passThrough a) w = d ViaNext a w"
  by (simp add: passThrough_def split: option.splits sum.splits prod.splits)

lemma composed_passThrough:
  "\<forall>mw \<in> set mws. mw = passThrough \<Longrightarrow> composed d mws a w = guardedDispatch d a w"
  by (induction mws arbitrary: a w) (simp_all add: runProg_passThrough)

text \<open>
  When \<^verbatim>\<open>store.dispatch\<close> is the composed dispatch and every layer forwards to \<^verbatim>\<open>next\<close>, the
  action reaches \<^verbatim>\<open>guardedDispatch\<close>, which sets the flag and calls \<^verbatim>\<open>store.dispatch\<close>: the
  composed dispatch again. The action reaches \<^verbatim>\<open>guardedDispatch\<close> a second time with the
  flag set, and the re-entrancy error propagates to the caller. The reducer is never called.
\<close>

lemma dispatch_passThrough_throws:
  assumes "\<forall>mw \<in> set (middlewares c). mw = passThrough"
    and "dispatchProp w = ComposedDispatch" and "\<not> isReducing w"
  shows "dispatch (Suc (Suc n)) c a w = Some (Inl reentrancyError, w)"
  using assms by (simp add: dispatch_def composed_passThrough guardedDispatch_def)

text \<open>
  By contrast the pipeline built by \<^verbatim>\<open>applyMiddleware(store, [passThrough])\<close> over a store
  created without middleware (as the repository's tests build it) applies the reducer.
\<close>

lemma applyMiddleware_over_plainStore:
  "map_option (\<lambda>(r, w). (r, countOf (objects w) (currentState w)))
     (applyMiddleware 4 (fst plainStore\<lparr>middlewares := [passThrough]\<rparr>)
        (Plain ''inc'' Undefined) (snd plainStore))
   = Some (Inr Undefined, 1)"
  by code_simp

text \<open>
  Claim C1 (a store created with a non-empty list of forwarding middlewares dispatches a
  plain action without throwing and applies the reducer) fails on the code. For
  \<^verbatim>\<open>createStore(reducer, {count: 0}, [passThrough])\<close>, \<^verbatim>\<open>store.dispatch({type: "inc"})\<close> throws
  "Dispatching while a reducer is executing is not allowed." and leaves every cell of the
  store as it was: \<^verbatim>\<open>getState()\<close> still returns \<^verbatim>\<open>{count: 0}\<close>.
\<close>

theorem createStore_middleware_dispatch_throws:
  "dispatch (Suc (Suc n)) (fst middlewareStore) (Plain ''inc'' Undefined) (snd middlewareStore)
     = Some (Inl reentrancyError, snd middlewareStore)
   \<and> countOf (objects (snd middlewareStore)) (getState (snd middlewareStore)) = 0"
proof -
  have "dispatch (Suc (Suc n)) (fst middlewareStore) (Plain ''inc'' Undefined)
          (snd middlewareStore) = Some (Inl reentrancyError, snd middlewareStore)"
    by (rule dispatch_passThrough_throws) (simp_all add: middlewareStore_def createStore_def)
  moreover have "countOf (objects (snd middlewareStore)) (getState (snd middlewareStore)) = 0"
    by (simp add: middlewareStore_def createStore_def getState_def countOf_def counterHeap_def
        deref_def)
  ultimately show ?thesis by simp
qed

section \<open>Callbacks that do not re-enter the store\<close>

text \<open>
  A callback that does not call the store changes nothing but the object heap; a quiet
  one moreover returns.
\<close>

lemma runProg_storeFree:
  "storeFree p \<Longrightarrow> \<exists>r h'. runProg d p w = Some (r, w\<lparr>objects := h'\<rparr>)"
proof (induction p arbitrary: w)
  case (Return v)
  have "w = w\<lparr>objects := objects w\<rparr>" by simp
  then show ?case by (metis runProg.simps(1))
next
  case (Throw e)
  have "w = w\<lparr>objects := objects w\<rparr>" by simp
  then show ?case by (metis runProg.simps(2))
next
  case (GetState k)
  then show ?case by simp
next
  case (Heap f k)
  have m: "k (snd (f (objects w))) \<in> range k" by blast
  have "storeFree (k (snd (f (objects w))))" using Heap.prems by simp
  from Heap.IH[OF m this, of "w\<lparr>objects := fst (f (objects w))\<rparr>"]
  show ?case by auto
qed simp_all















section \<open>The example stores evaluated\<close>


lemma counterReducer_clone:
  "currentState w = Ref 0 \<Longrightarrow> objects w = counterHeap \<Longrightarrow>
   runProg d (counterReducer (Ref 0) (Plain ''clone'' Undefined)) w
     = Some (Inr (Ref 1), withObject (PlainObj 0 [(''count'', Number (Fin 0))] [] []) w)"
  by (simp add: counterReducer_def withObject_def alloc_def countOf_def counterHeap_def deref_def)


lemma counter_clone_equal:
  "deepEqualCall (fst (alloc (PlainObj 0 [(''count'', Number (Fin 0))] [] []) counterHeap))
     (Ref 1) (Ref 0) = Some True"
  by (simp add: alloc_def counterHeap_def deepEqualCall_def deref_def)

lemma plainStore_simps:
  "reducer (fst plainStore) = counterReducer"
  "listenerFn (fst plainStore) = noListener"
  "currentState (snd plainStore) = Ref 0"
  "objects (snd plainStore) = counterHeap"
  "listeners (snd plainStore) = []"
  "notified (snd plainStore) = []"
  "dispatchProp (snd plainStore) = BaseDispatch"
  "isReducing (snd plainStore) = False"
  by (simp_all add: plainStore_def createStore_def)

lemma subscribe_fields:
  "currentState (subscribe l w) = currentState w"
  "objects (subscribe l w) = objects w"
  "notified (subscribe l w) = notified w"
  "isReducing (subscribe l w) = isReducing w"
  "dispatchProp (subscribe l w) = dispatchProp w"
  by (simp_all add: subscribe_def)


section \<open>The base dispatch\<close>

text \<open>For a store created without middleware, \<^verbatim>\<open>store.dispatch\<close> is \<^verbatim>\<open>baseDispatch\<close>.\<close>

lemma dispatch_base:
  "dispatchProp w = BaseDispatch \<Longrightarrow> dispatch (Suc n) c a w = baseDispatch (perform n c) n c a w"
  by (simp add: dispatch_def)

text \<open>
  The swap comes first, whatever the listeners do: when \<^verbatim>\<open>deepEqual\<close> judges the value the
  reducer returned different from the state cell, \<^verbatim>\<open>baseDispatch\<close> is the pass over the
  listeners started in the store whose cell already holds that value.
\<close>

lemma baseDispatch_swaps_first:
  assumes "runProg d (reducer c (currentState w) a) w = Some (Inr nextState, w1)"
    and "deepEqualCall (objects w1) nextState (currentState w1) = Some False"
  shows "baseDispatch d k c a w = forEachListener k d c 0 (w1\<lparr>currentState := nextState\<rparr>)"
  using assms by (simp add: baseDispatch_def)

text \<open>
  Claim C4 (dispatch suppression). If the reducer, applied to the current state and the
  action, returns a value that \<^verbatim>\<open>deepEqual\<close> judges equal to the state cell, \<^verbatim>\<open>baseDispatch\<close>
  returns with the store exactly as the reducer left it: the cell is not written and no
  listener is called. For a reducer that does not itself call the store, the state cell,
  the listener set and the log of listener calls are those before the dispatch.
\<close>

theorem dispatch_suppressed:
  assumes "runProg d (reducer c (currentState w) a) w = Some (Inr nextState, w1)"
    and "deepEqualCall (objects w1) nextState (currentState w1) = Some True"
  shows "baseDispatch d k c a w = Some (Inr Undefined, w1)
         \<and> (storeFree (reducer c (currentState w) a) \<longrightarrow>
              currentState w1 = currentState w \<and> listeners w1 = listeners w
              \<and> notified w1 = notified w)"
proof -
  have "baseDispatch d k c a w = Some (Inr Undefined, w1)"
    using assms by (simp add: baseDispatch_def)
  moreover have "currentState w1 = currentState w \<and> listeners w1 = listeners w
      \<and> notified w1 = notified w" if "storeFree (reducer c (currentState w) a)"
  proof -
    from runProg_storeFree[OF that, of d w] assms(1)
    obtain h' where "w1 = w\<lparr>objects := h'\<rparr>" by auto
    then show ?thesis by simp
  qed
  ultimately show ?thesis by blast
qed

text \<open>
  An instance is the test "does NOT emit when reducer returns deep-equal object": the
  reducer returns a freshly allocated \<^verbatim>\<open>{count: 0}\<close> for the state \<^verbatim>\<open>{count: 0}\<close>.
\<close>

theorem dispatch_suppressed_witness:
  "baseDispatch (perform 0 (fst plainStore)) 1 (fst plainStore) (Plain ''clone'' Undefined)
      (subscribe 0 (snd plainStore))
     = Some (Inr Undefined,
             withObject (PlainObj 0 [(''count'', Number (Fin 0))] [] [])
               (subscribe 0 (snd plainStore)))
   \<and> currentState (withObject (PlainObj 0 [(''count'', Number (Fin 0))] [] [])
                      (subscribe 0 (snd plainStore))) = Ref 0
   \<and> notified (withObject (PlainObj 0 [(''count'', Number (Fin 0))] [] [])
                  (subscribe 0 (snd plainStore))) = []"
proof -
  let ?c = "fst plainStore" and ?w = "subscribe 0 (snd plainStore)"
  let ?w1 = "withObject (PlainObj 0 [(''count'', Number (Fin 0))] [] []) ?w"
  have cs: "currentState ?w = Ref 0" and ob: "objects ?w = counterHeap"
    by (simp_all add: subscribe_fields plainStore_simps)
  have 1: "runProg (perform 0 ?c) (reducer ?c (currentState ?w) (Plain ''clone'' Undefined)) ?w
      = Some (Inr (Ref 1), ?w1)"
    using counterReducer_clone[OF cs ob] by (simp add: plainStore_simps cs)
  have 2: "deepEqualCall (objects ?w1) (Ref 1) (currentState ?w1) = Some True"
    using counter_clone_equal by (simp add: withObject_def ob cs)
  have 3: "storeFree (reducer ?c (currentState ?w) (Plain ''clone'' Undefined))"
    by (simp add: plainStore_simps cs counterReducer_def)
  from dispatch_suppressed[OF 1 2, of 1] 3 show ?thesis
    by (simp add: cs subscribe_fields plainStore_simps)
qed

text \<open>
  Claim C6 (reducer-failure atomicity). If the reducer throws, the error comes out of
  \<^verbatim>\<open>baseDispatch\<close> with the store as the reducer left it; for a reducer that does not itself
  call the store, the state cell still holds the prior state and no listener was called.
\<close>

theorem reducer_failure_atomic:
  assumes "runProg d (reducer c (currentState w) a) w = Some (Inl e, w1)"
  shows "baseDispatch d k c a w = Some (Inl e, w1)
         \<and> (storeFree (reducer c (currentState w) a) \<longrightarrow>
              currentState w1 = currentState w \<and> listeners w1 = listeners w
              \<and> notified w1 = notified w)"
proof -
  have "baseDispatch d k c a w = Some (Inl e, w1)"
    using assms by (simp add: baseDispatch_def)
  moreover have "currentState w1 = currentState w \<and> listeners w1 = listeners w
      \<and> notified w1 = notified w" if "storeFree (reducer c (currentState w) a)"
  proof -
    from runProg_storeFree[OF that, of d w] assms(1)
    obtain h' where "w1 = w\<lparr>objects := h'\<rparr>" by auto
    then show ?thesis by simp
  qed
  ultimately show ?thesis by blast
qed

theorem reducer_failure_atomic_witness:
  "baseDispatch (perform 0 (fst plainStore)) 1 (fst plainStore) (Plain ''boom'' Undefined)
      (subscribe 0 (snd plainStore)) = Some (Inl (Error ''boom''), subscribe 0 (snd plainStore))
   \<and> currentState (subscribe 0 (snd plainStore)) = Ref 0
   \<and> notified (subscribe 0 (snd plainStore)) = []"
proof -
  let ?c = "fst plainStore" and ?w = "subscribe 0 (snd plainStore)"
  have r: "reducer ?c (currentState ?w) (Plain ''boom'' Undefined) = Throw (Error ''boom'')"
    by (simp add: plainStore_def createStore_def subscribe_def counterReducer_def)
  have 1: "runProg (perform 0 ?c) (reducer ?c (currentState ?w) (Plain ''boom'' Undefined)) ?w
      = Some (Inl (Error ''boom''), ?w)"
    unfolding r by simp
  from reducer_failure_atomic[OF 1, of 1] show ?thesis
    by (simp add: plainStore_def createStore_def subscribe_def)
qed




section \<open>Properties that every operation of the store preserves\<close>

text \<open>
  The store and its callbacks change the state only by the elementary steps, so every
  way of dispatching preserves every stable property, whatever the callbacks do.
\<close>

lemma stableD:
  assumes "stable P" "P w"
  shows "P (w\<lparr>objects := h\<rparr>)" "P (w\<lparr>currentState := s\<rparr>)" "P (subscribe l w)"
    "P (unsubscribe l w)" "P (w\<lparr>isReducing := b\<rparr>)" "P (w\<lparr>notified := n\<rparr>)"
    "P (w\<lparr>thunkCalls := t\<rparr>)"
proof -
  note st = assms(1)[unfolded stable_def]
  note r = st[THEN conjunct2]
  note rr = r[THEN conjunct2]
  note rrr = rr[THEN conjunct2]
  note r4 = rrr[THEN conjunct2]
  note r5 = r4[THEN conjunct2]
  show "P (w\<lparr>objects := h\<rparr>)" by (rule st[THEN conjunct1, rule_format, OF assms(2)])
  show "P (w\<lparr>currentState := s\<rparr>)" by (rule r[THEN conjunct1, rule_format, OF assms(2)])
  show "P (subscribe l w)" by (rule rr[THEN conjunct1, rule_format, OF assms(2)])
  show "P (unsubscribe l w)" by (rule rrr[THEN conjunct1, rule_format, OF assms(2)])
  show "P (w\<lparr>isReducing := b\<rparr>)" by (rule r4[THEN conjunct1, rule_format, OF assms(2)])
  show "P (w\<lparr>notified := n\<rparr>)" by (rule r5[THEN conjunct1, rule_format, OF assms(2)])
  show "P (w\<lparr>thunkCalls := t\<rparr>)" by (rule r5[THEN conjunct2, rule_format, OF assms(2)])
qed

lemma runProg_preserves:
  assumes st: "stable P" and d: "preserves P d"
  shows "P w \<Longrightarrow> runProg d p w = Some (r, w') \<Longrightarrow> P w'"
proof (induction p arbitrary: w)
  case (Return v)
  then show ?case by simp
next
  case (Throw e)
  then show ?case by simp
next
  case (Dispatch t a k)
  from Dispatch.prems(2) obtain r1 w1 where 1: "d t a w = Some (r1, w1)"
    and 2: "runProg d (k r1) w1 = Some (r, w')"
    by (auto split: option.splits)
  from d 1 Dispatch.prems(1) have 3: "P w1" unfolding preserves_def by blast
  have "k r1 \<in> range k" by blast
  from Dispatch.IH[OF this 3 2] show ?case .
next
  case (Heap f k)
  have m: "k (snd (f (objects w))) \<in> range k" by blast
  have 1: "P (w\<lparr>objects := fst (f (objects w))\<rparr>)"
    using stableD(1)[OF st Heap.prems(1)] .
  have 2: "runProg d (k (snd (f (objects w)))) (w\<lparr>objects := fst (f (objects w))\<rparr>) = Some (r, w')"
    using Heap.prems(2) by simp
  from Heap.IH[OF m 1 2] show ?case .
next
  case (Subscribe l p)
  have 1: "P (subscribe l w)" using stableD(3)[OF st Subscribe.prems(1)] .
  have 2: "runProg d p (subscribe l w) = Some (r, w')" using Subscribe.prems(2) by simp
  from Subscribe.IH[OF 1 2] show ?case .
next
  case (Unsubscribe l p)
  have 1: "P (unsubscribe l w)" using stableD(4)[OF st Unsubscribe.prems(1)] .
  have 2: "runProg d p (unsubscribe l w) = Some (r, w')" using Unsubscribe.prems(2) by simp
  from Unsubscribe.IH[OF 1 2] show ?case .
next
  case (GetState k)
  have m: "k (getState w) \<in> range k" by blast
  have 2: "runProg d (k (getState w)) w = Some (r, w')" using GetState.prems(2) by simp
  from GetState.IH[OF m GetState.prems(1) 2] show ?case .
qed

lemma forEachListener_preserves:
  assumes st: "stable P" and d: "preserves P d"
  shows "P w \<Longrightarrow> forEachListener k d c i w = Some (r, w') \<Longrightarrow> P w'"
proof (induction k arbitrary: i w)
  case 0
  then show ?case by simp
next
  case (Suc k)
  show ?case
  proof (cases "i < length (listeners w)")
    case False
    with Suc.prems show ?thesis by simp
  next
    case True
    show ?thesis
    proof (cases "listeners w ! i")
      case None
      with True Suc.prems Suc.IH show ?thesis by simp
    next
      case (Some l)
      let ?w0 = "w\<lparr>notified := notified w @ [(l, currentState w)]\<rparr>"
      have p0: "P ?w0" using stableD(6)[OF st Suc.prems(1)] .
      from Suc.prems(2) True Some obtain r1 w1 where
        run: "runProg d (listenerFn c l (currentState w)) ?w0 = Some (r1, w1)"
        by (auto split: option.splits)
      have p1: "P w1" using runProg_preserves[OF st d p0 run] .
      show ?thesis
      proof (cases r1)
        case (Inl e)
        with Suc.prems(2) True Some run p1 show ?thesis by simp
      next
        case (Inr v)
        with Suc.prems(2) True Some run have "forEachListener k d c (Suc i) w1 = Some (r, w')"
          by simp
        from Suc.IH[OF p1 this] show ?thesis .
      qed
    qed
  qed
qed

lemma baseDispatch_preserves:
  assumes st: "stable P" and d: "preserves P d" and p: "P w"
    and res: "baseDispatch d k c a w = Some (r, w')"
  shows "P w'"
proof -
  from res obtain r1 w1 where
    run: "runProg d (reducer c (currentState w) a) w = Some (r1, w1)"
    by (auto simp: baseDispatch_def split: option.splits)
  have p1: "P w1" using runProg_preserves[OF st d p run] .
  show ?thesis
  proof (cases r1)
    case (Inl e)
    with res run p1 show ?thesis by (simp add: baseDispatch_def)
  next
    case (Inr s')
    with res run obtain eq where eq: "deepEqualCall (objects w1) s' (currentState w1) = Some eq"
      by (auto simp: baseDispatch_def split: option.splits)
    show ?thesis
    proof (cases eq)
      case True
      with res run Inr eq p1 show ?thesis by (simp add: baseDispatch_def)
    next
      case False
      with res run Inr eq
      have loop: "forEachListener k d c 0 (w1\<lparr>currentState := s'\<rparr>) = Some (r, w')"
        by (simp add: baseDispatch_def)
      have "P (w1\<lparr>currentState := s'\<rparr>)" using stableD(2)[OF st p1] .
      from forEachListener_preserves[OF st d this loop] show ?thesis .
    qed
  qed
qed

lemma guardedDispatch_preserves:
  assumes st: "stable P" and d: "preserves P d" and p: "P w"
    and res: "guardedDispatch d a w = Some (r, w')"
  shows "P w'"
proof (cases "isReducing w")
  case True
  with res p show ?thesis by (simp add: guardedDispatch_def)
next
  case False
  with res obtain w1 where 1: "d ViaStore a (w\<lparr>isReducing := True\<rparr>) = Some (r, w1)"
    and 2: "w' = w1\<lparr>isReducing := False\<rparr>"
    by (auto simp: guardedDispatch_def split: option.splits)
  have "P (w\<lparr>isReducing := True\<rparr>)" using stableD(5)[OF st p] .
  with d 1 have "P w1" unfolding preserves_def by blast
  from stableD(5)[OF st this] 2 show ?thesis by simp
qed

lemma composed_preserves:
  assumes st: "stable P" and d: "preserves P d"
  shows "P w \<Longrightarrow> composed d mws a w = Some (r, w') \<Longrightarrow> P w'"
proof (induction mws arbitrary: a w r w')
  case Nil
  then show ?case using guardedDispatch_preserves[OF st d] by simp
next
  case (Cons mw rest)
  have "preserves P (\<lambda>t. case t of ViaNext \<Rightarrow> composed d rest | _ \<Rightarrow> d t)"
    unfolding preserves_def
  proof (intro allI impI)
    fix t a1 w1 r1 w1'
    assume p1: "P w1"
      and c: "(case t of ViaNext \<Rightarrow> composed d rest | _ \<Rightarrow> d t) a1 w1 = Some (r1, w1')"
    show "P w1'"
    proof (cases "t = ViaNext")
      case True
      with c have "composed d rest a1 w1 = Some (r1, w1')" by simp
      from Cons.IH[OF p1 this] show ?thesis .
    next
      case False
      with c have "d t a1 w1 = Some (r1, w1')" by (cases t) simp_all
      with d p1 show ?thesis unfolding preserves_def by blast
    qed
  qed
  from runProg_preserves[OF st this Cons.prems(1)] Cons.prems(2) show ?case by simp
qed

lemma apiDispatch_preserves:
  assumes st: "stable P" and d: "preserves P d" and p: "P w"
    and res: "apiDispatch d c a w = Some (r, w')"
  shows "P w'"
proof (cases a)
  case (Plain ty pl)
  with res obtain r1 where "d ViaPipeline a w = Some (r1, w')"
    by (auto simp: apiDispatch_def split: option.splits sum.splits)
  with d p show ?thesis unfolding preserves_def by blast
next
  case (Thunk t)
  with res have run: "runProg d (thunkFn c t) (w\<lparr>thunkCalls := thunkCalls w @ [t]\<rparr>) = Some (r, w')"
    by (simp add: apiDispatch_def)
  have "P (w\<lparr>thunkCalls := thunkCalls w @ [t]\<rparr>)" using stableD(7)[OF st p] .
  from runProg_preserves[OF st d this run] show ?thesis .
qed

lemma perform_preserves:
  assumes st: "stable P"
  shows "preserves P (perform n c)"
proof (induction n)
  case 0
  then show ?case by (simp add: preserves_def)
next
  case (Suc n)
  show ?case unfolding preserves_def
  proof (intro allI impI)
    fix t a w r w'
    assume p: "P w" and res: "perform (Suc n) c t a w = Some (r, w')"
    show "P w'"
    proof (cases t)
      case ViaStore
      show ?thesis
      proof (cases "dispatchProp w")
        case BaseDispatch
        with res ViaStore have "baseDispatch (perform n c) n c a w = Some (r, w')" by simp
        from baseDispatch_preserves[OF st Suc p this] show ?thesis .
      next
        case ComposedDispatch
        with res ViaStore have "composed (perform n c) (middlewares c) a w = Some (r, w')"
          by simp
        from composed_preserves[OF st Suc p this] show ?thesis .
      qed
    next
      case ViaPipeline
      with res have "composed (perform n c) (middlewares c) a w = Some (r, w')" by simp
      from composed_preserves[OF st Suc p this] show ?thesis .
    next
      case ViaApi
      with res have "apiDispatch (perform n c) c a w = Some (r, w')" by simp
      from apiDispatch_preserves[OF st Suc p this] show ?thesis .
    next
      case ViaRaw
      with res have "guardedDispatch (perform n c) a w = Some (r, w')" by simp
      from guardedDispatch_preserves[OF st Suc p this] show ?thesis .
    next
      case ViaNext
      with res show ?thesis by simp
    qed
  qed
qed

text \<open>
  No operation assigns \<^verbatim>\<open>store.dispatch\<close> after \<^verbatim>\<open>createStore\<close> has returned: a store created
  with an empty list of middlewares keeps the base dispatch for ever.
\<close>

lemma stable_dispatchProp: "stable (\<lambda>w. dispatchProp w = x)"
  unfolding stable_def by (intro conjI allI impI) (simp_all add: subscribe_def unsubscribe_def)

lemma dispatch_keeps_dispatchProp:
  "dispatch n c a w = Some (r, w') \<Longrightarrow> dispatchProp w' = dispatchProp w"
  using perform_preserves[OF stable_dispatchProp, of "dispatchProp w" n c]
  unfolding preserves_def dispatch_def by blast

lemma createStore_dispatchProp:
  "dispatchProp (snd (createStore lf tf h r s0 mws))
     = (if mws = [] then BaseDispatch else ComposedDispatch)"
  by (simp add: createStore_def)





lemma createStore_listener_set:
  "distinct (live (listeners (snd (createStore lf tf h r s0 mws))))"
  by (simp add: createStore_def)

section \<open>Thunks without middleware\<close>

text \<open>
  Claim C9 (thunks without middleware). For a store whose \<^verbatim>\<open>dispatch\<close> property is the base
  dispatch, dispatching a function passes the function to the reducer as the action and
  applies the equality-suppression rule to what the reducer returns. The function is not
  called: the log of thunk calls is as before when the listener pass starts.
\<close>

theorem thunk_without_middleware_goes_to_reducer:
  assumes "dispatchProp w = BaseDispatch"
    and "runProg (perform n c) (reducer c (currentState w) (Thunk f)) w = Some (Inr nextState, w1)"
    and "deepEqualCall (objects w1) nextState (currentState w1) = Some eq"
  shows "dispatch (Suc n) c (Thunk f) w =
           (if eq then Some (Inr Undefined, w1)
            else forEachListener n (perform n c) c 0 (w1\<lparr>currentState := nextState\<rparr>))
         \<and> (storeFree (reducer c (currentState w) (Thunk f)) \<longrightarrow> thunkCalls w1 = thunkCalls w)"
proof -
  have "dispatch (Suc n) c (Thunk f) w =
           (if eq then Some (Inr Undefined, w1)
            else forEachListener n (perform n c) c 0 (w1\<lparr>currentState := nextState\<rparr>))"
    using assms by (simp add: dispatch_base baseDispatch_def)
  moreover have "thunkCalls w1 = thunkCalls w" if "storeFree (reducer c (currentState w) (Thunk f))"
  proof -
    from runProg_storeFree[OF that, of "perform n c" w] assms(2)
    obtain h' where "w1 = w\<lparr>objects := h'\<rparr>" by auto
    then show ?thesis by simp
  qed
  ultimately show ?thesis by blast
qed

theorem thunk_without_middleware_goes_to_reducer_witness:
  "dispatch 2 (fst thunkStore) (Thunk 7) (snd thunkStore)
     = Some (Inr Undefined, (snd thunkStore)\<lparr>currentState := Number (Fin 1)\<rparr>)
   \<and> thunkCalls (snd thunkStore) = []"
proof -
  let ?c = "fst thunkStore" and ?w = "snd thunkStore"
  have 0: "dispatchProp ?w = BaseDispatch" by (simp add: thunkStore_def createStore_def)
  have r: "reducer ?c (currentState ?w) (Thunk 7) = Return (Number (Fin 1))"
    by (simp add: thunkStore_def createStore_def thunkCountingReducer_def)
  have 1: "runProg (perform 1 ?c) (reducer ?c (currentState ?w) (Thunk 7)) ?w = Some (Inr (Number (Fin 1)), ?w)"
    unfolding r by simp
  have 2: "deepEqualCall (objects ?w) (Number (Fin 1)) (currentState ?w) = Some False"
    by (simp add: thunkStore_def createStore_def deepEqualCall_def)
  have 3: "storeFree (reducer ?c (currentState ?w) (Thunk 7))" unfolding r by simp
  have s: "Suc 1 = 2" by simp
  from thunk_without_middleware_goes_to_reducer[OF 0 1 2] 3 show ?thesis
    unfolding s by (simp add: thunkStore_def createStore_def)
qed

section \<open>The listener set\<close>






section \<open>The re-entrancy guard\<close>

text \<open>
  Nothing that the store or a callback does while the flag is set clears it: the only
  assignment of \<^verbatim>\<open>false\<close> is the \<^verbatim>\<open>finally\<close> of a call of \<^verbatim>\<open>guardedDispatch\<close> that found the flag
  clear.
\<close>

lemma runProg_keepsFlag:
  assumes "keepsFlag d"
  shows "isReducing w \<Longrightarrow> runProg d p w = Some (r, w') \<Longrightarrow> isReducing w'"
proof (induction p arbitrary: w)
  case (Return v)
  then show ?case by simp
next
  case (Throw e)
  then show ?case by simp
next
  case (Dispatch t a k)
  from Dispatch.prems(2) obtain r1 w1 where 1: "d t a w = Some (r1, w1)"
    and 2: "runProg d (k r1) w1 = Some (r, w')"
    by (auto split: option.splits)
  from assms 1 Dispatch.prems(1) have 3: "isReducing w1" unfolding keepsFlag_def by blast
  have "k r1 \<in> range k" by blast
  from Dispatch.IH[OF this 3 2] show ?case .
next
  case (Heap f k)
  have m: "k (snd (f (objects w))) \<in> range k" by blast
  have 1: "isReducing (w\<lparr>objects := fst (f (objects w))\<rparr>)" using Heap.prems(1) by simp
  have 2: "runProg d (k (snd (f (objects w)))) (w\<lparr>objects := fst (f (objects w))\<rparr>) = Some (r, w')"
    using Heap.prems(2) by simp
  from Heap.IH[OF m 1 2] show ?case .
next
  case (Subscribe l p)
  have 1: "isReducing (subscribe l w)" using Subscribe.prems(1) by (simp add: subscribe_def)
  have 2: "runProg d p (subscribe l w) = Some (r, w')" using Subscribe.prems(2) by simp
  from Subscribe.IH[OF 1 2] show ?case .
next
  case (Unsubscribe l p)
  have 1: "isReducing (unsubscribe l w)" using Unsubscribe.prems(1) by (simp add: unsubscribe_def)
  have 2: "runProg d p (unsubscribe l w) = Some (r, w')" using Unsubscribe.prems(2) by simp
  from Unsubscribe.IH[OF 1 2] show ?case .
next
  case (GetState k)
  have m: "k (getState w) \<in> range k" by blast
  have 2: "runProg d (k (getState w)) w = Some (r, w')" using GetState.prems(2) by simp
  from GetState.IH[OF m GetState.prems(1) 2] show ?case .
qed

lemma forEachListener_keepsFlag:
  assumes "keepsFlag d"
  shows "isReducing w \<Longrightarrow> forEachListener k d c i w = Some (r, w') \<Longrightarrow> isReducing w'"
proof (induction k arbitrary: i w)
  case 0
  then show ?case by simp
next
  case (Suc k)
  show ?case
  proof (cases "i < length (listeners w)")
    case False
    with Suc.prems show ?thesis by simp
  next
    case True
    show ?thesis
    proof (cases "listeners w ! i")
      case None
      with True Suc.prems Suc.IH show ?thesis by simp
    next
      case (Some l)
      let ?w0 = "w\<lparr>notified := notified w @ [(l, currentState w)]\<rparr>"
      from Suc.prems(2) True Some obtain r1 w1 where
        run: "runProg d (listenerFn c l (currentState w)) ?w0 = Some (r1, w1)"
        by (auto split: option.splits)
      have f1: "isReducing w1"
        using runProg_keepsFlag[OF assms _ run] Suc.prems(1) by simp
      show ?thesis
      proof (cases r1)
        case (Inl e)
        with Suc.prems(2) True Some run f1 show ?thesis by simp
      next
        case (Inr v)
        with Suc.prems(2) True Some run have "forEachListener k d c (Suc i) w1 = Some (r, w')"
          by simp
        from Suc.IH[OF f1 this] show ?thesis .
      qed
    qed
  qed
qed

lemma baseDispatch_keepsFlag:
  assumes "keepsFlag d" "isReducing w" "baseDispatch d k c a w = Some (r, w')"
  shows "isReducing w'"
proof -
  from assms(3) obtain r1 w1 where
    run: "runProg d (reducer c (currentState w) a) w = Some (r1, w1)"
    by (auto simp: baseDispatch_def split: option.splits)
  have f1: "isReducing w1" using runProg_keepsFlag[OF assms(1,2) run] .
  show ?thesis
  proof (cases r1)
    case (Inl e)
    with assms(3) run f1 show ?thesis by (simp add: baseDispatch_def)
  next
    case (Inr s')
    with assms(3) run obtain eq where eq: "deepEqualCall (objects w1) s' (currentState w1) = Some eq"
      by (auto simp: baseDispatch_def split: option.splits)
    show ?thesis
    proof (cases eq)
      case True
      with assms(3) run Inr eq f1 show ?thesis by (simp add: baseDispatch_def)
    next
      case False
      with assms(3) run Inr eq
      have "forEachListener k d c 0 (w1\<lparr>currentState := s'\<rparr>) = Some (r, w')"
        by (simp add: baseDispatch_def)
      from forEachListener_keepsFlag[OF assms(1) _ this] f1 show ?thesis by simp
    qed
  qed
qed

lemma composed_keepsFlag:
  assumes "keepsFlag d"
  shows "isReducing w \<Longrightarrow> composed d mws a w = Some (r, w') \<Longrightarrow> isReducing w'"
proof (induction mws arbitrary: a w r w')
  case Nil
  then show ?case by (simp add: guardedDispatch_def)
next
  case (Cons mw rest)
  have "keepsFlag (\<lambda>t. case t of ViaNext \<Rightarrow> composed d rest | _ \<Rightarrow> d t)"
    unfolding keepsFlag_def
  proof (intro allI impI)
    fix t a1 w1 r1 w1'
    assume f: "isReducing w1"
      and p: "(case t of ViaNext \<Rightarrow> composed d rest | _ \<Rightarrow> d t) a1 w1 = Some (r1, w1')"
    show "isReducing w1'"
    proof (cases "t = ViaNext")
      case True
      with p have "composed d rest a1 w1 = Some (r1, w1')" by simp
      from Cons.IH[OF f this] show ?thesis .
    next
      case False
      with p have "d t a1 w1 = Some (r1, w1')" by (cases t) simp_all
      with assms f show ?thesis unfolding keepsFlag_def by blast
    qed
  qed
  from runProg_keepsFlag[OF this Cons.prems(1)] Cons.prems(2) show ?case by simp
qed

lemma apiDispatch_keepsFlag:
  assumes "keepsFlag d" "isReducing w" "apiDispatch d c a w = Some (r, w')"
  shows "isReducing w'"
proof (cases a)
  case (Plain ty pl)
  with assms(3) obtain r1 where "d ViaPipeline a w = Some (r1, w')"
    by (auto simp: apiDispatch_def split: option.splits sum.splits)
  with assms(1,2) show ?thesis unfolding keepsFlag_def by blast
next
  case (Thunk t)
  with assms(3) have "runProg d (thunkFn c t) (w\<lparr>thunkCalls := thunkCalls w @ [t]\<rparr>) = Some (r, w')"
    by (simp add: apiDispatch_def)
  from runProg_keepsFlag[OF assms(1) _ this] assms(2) show ?thesis by simp
qed

lemma perform_keepsFlag: "keepsFlag (perform n c)"
proof (induction n)
  case 0
  then show ?case by (simp add: keepsFlag_def)
next
  case (Suc n)
  show ?case unfolding keepsFlag_def
  proof (intro allI impI)
    fix t a w r w'
    assume f: "isReducing w" and p: "perform (Suc n) c t a w = Some (r, w')"
    show "isReducing w'"
    proof (cases t)
      case ViaStore
      show ?thesis
      proof (cases "dispatchProp w")
        case BaseDispatch
        with p ViaStore have "baseDispatch (perform n c) n c a w = Some (r, w')" by simp
        from baseDispatch_keepsFlag[OF Suc f this] show ?thesis .
      next
        case ComposedDispatch
        with p ViaStore have "composed (perform n c) (middlewares c) a w = Some (r, w')" by simp
        from composed_keepsFlag[OF Suc f this] show ?thesis .
      qed
    next
      case ViaPipeline
      with p have "composed (perform n c) (middlewares c) a w = Some (r, w')" by simp
      from composed_keepsFlag[OF Suc f this] show ?thesis .
    next
      case ViaApi
      with p have "apiDispatch (perform n c) c a w = Some (r, w')" by simp
      from apiDispatch_keepsFlag[OF Suc f this] show ?thesis .
    next
      case ViaRaw
      with p f show ?thesis by (simp add: guardedDispatch_def)
    next
      case ViaNext
      with p show ?thesis by simp
    qed
  qed
qed

text \<open>
  Claim C7 (reducer re-entrancy guard). While the flag is set, a call of the guarded raw
  dispatch throws the re-entrancy error and changes nothing, so the nested action is not
  applied. Nothing that runs while the flag is set clears it: it stays set for the whole
  of the \<^verbatim>\<open>store.dispatch\<close> call that \<^verbatim>\<open>guardedDispatch\<close> makes. A call that finds the flag
  clear runs \<^verbatim>\<open>store.dispatch\<close> with the flag set and clears it afterwards, whether that call
  returned or threw.
\<close>

theorem reentrancy_guard:
  "(isReducing w \<longrightarrow> guardedDispatch d a w = Some (Inl reentrancyError, w))
   \<and> (isReducing w \<and> perform n c t a' w = Some (r, w') \<longrightarrow> isReducing w')
   \<and> (\<not> isReducing w \<longrightarrow>
        guardedDispatch d a w =
          (case d ViaStore a (w\<lparr>isReducing := True\<rparr>) of
             None \<Rightarrow> None
           | Some (r, w') \<Rightarrow> Some (r, w'\<lparr>isReducing := False\<rparr>)))"
proof (intro conjI impI)
  assume "isReducing w"
  then show "guardedDispatch d a w = Some (Inl reentrancyError, w)"
    by (simp add: guardedDispatch_def)
next
  assume "isReducing w \<and> perform n c t a' w = Some (r, w')"
  then show "isReducing w'"
    using perform_keepsFlag[of n c] unfolding keepsFlag_def by blast
next
  assume "\<not> isReducing w"
  then show "guardedDispatch d a w =
          (case d ViaStore a (w\<lparr>isReducing := True\<rparr>) of
             None \<Rightarrow> None
           | Some (r, w') \<Rightarrow> Some (r, w'\<lparr>isReducing := False\<rparr>))"
    by (simp add: guardedDispatch_def)
qed

theorem reentrancy_guard_witness:
  "isReducing ((snd reentrantStore)\<lparr>isReducing := True\<rparr>)
   \<and> guardedDispatch (perform 2 (fst reentrantStore)) (Plain ''inc'' Undefined)
        ((snd reentrantStore)\<lparr>isReducing := True\<rparr>)
       = Some (Inl reentrancyError, (snd reentrantStore)\<lparr>isReducing := True\<rparr>)
   \<and> (case perform 2 (fst reentrantStore) ViaStore (Plain ''inc'' Undefined)
              ((snd reentrantStore)\<lparr>isReducing := True\<rparr>) of
         None \<Rightarrow> False
       | Some (r, w') \<Rightarrow> isReducing w')
   \<and> \<not> isReducing (snd reentrantStore)
   \<and> observe (guardedDispatch (perform 2 (fst reentrantStore)) (Plain ''inc'' Undefined)
        (snd reentrantStore)) = Some (Inr Undefined, 1, [], False)"
proof -
  let ?c = "fst reentrantStore" and ?w = "snd reentrantStore"
  let ?a = "Plain ''inc'' Undefined"
  have t: "isReducing (?w\<lparr>isReducing := True\<rparr>)" by simp
  have f: "\<not> isReducing ?w" by (simp add: reentrantStore_def createStore_def)
  have "observe (perform 2 ?c ViaStore ?a (?w\<lparr>isReducing := True\<rparr>))
          = Some (Inr Undefined, 1, [], True)"
    by code_simp
  then obtain r w' where p: "perform 2 ?c ViaStore ?a (?w\<lparr>isReducing := True\<rparr>) = Some (r, w')"
    by (auto simp: observe_def)
  have m: "isReducing w'"
    using reentrancy_guard[of "?w\<lparr>isReducing := True\<rparr>" "perform 2 ?c" ?a 2 ?c ViaStore ?a r w',
        THEN conjunct2, THEN conjunct1] t p by blast
  have e: "observe (case perform 2 ?c ViaStore ?a (?w\<lparr>isReducing := True\<rparr>) of
             None \<Rightarrow> None
           | Some (r, w') \<Rightarrow> Some (r, w'\<lparr>isReducing := False\<rparr>)) = Some (Inr Undefined, 1, [], False)"
    by code_simp
  from reentrancy_guard[of "?w\<lparr>isReducing := True\<rparr>" "perform 2 ?c" ?a]
    reentrancy_guard[of ?w "perform 2 ?c" ?a] t f e p m
  show ?thesis by simp
qed

text \<open>
  The scenario of the claim: the reducer calls the guarded raw dispatch while it is
  reducing. The nested \<^verbatim>\<open>"inc"\<close> is rejected with the re-entrancy error, the state stays
  \<^verbatim>\<open>{count: 0}\<close>, the flag is clear afterwards and the next dispatch is accepted.
\<close>

lemma nested_raw_dispatch_rejected:
  "observe (applyMiddleware 5 (fst reentrantStore) (Plain ''nested'' Undefined)
              (snd reentrantStore))
     = Some (Inl reentrancyError, 0, [], False)
   \<and> observe (case applyMiddleware 5 (fst reentrantStore) (Plain ''nested'' Undefined)
                     (snd reentrantStore) of
         None \<Rightarrow> None
       | Some (r, w') \<Rightarrow> applyMiddleware 5 (fst reentrantStore) (Plain ''inc'' Undefined) w')
     = Some (Inr Undefined, 1, [], False)"
  by code_simp

end
